theory Spec2Isabelle
  imports Complex_Main "HOL-Library.Sublist" "HOL-Library.Log_Nat" "HOL-Library.Multiset"
begin

section \<open>JavaScript values the code relies on\<close>

text \<open>
  Strings are modelled as \<^typ>\<open>string\<close>; array lengths and counters as \<^typ>\<open>nat\<close>.
  A template literal \<^verbatim>\<open>`${n}`\<close> prints a non-negative integer in decimal.
\<close>

definition digit_char :: "nat \<Rightarrow> char" where
  "digit_char d = ''0123456789'' ! (d mod 10)"

function show_nat :: "nat \<Rightarrow> string" where
  "show_nat n = (if n < 10 then [digit_char n] else show_nat (n div 10) @ [digit_char n])"
  by pat_completeness auto
termination
  by (relation "measure id") auto

declare show_nat.simps [simp del]

text \<open>
  A plain object literal inherits from \<^verbatim>\<open>Object.prototype\<close>: the property read
  \<^verbatim>\<open>obj[key]\<close> finds an own property first and otherwise walks the prototype chain,
  where it finds the members below (all of them functions, except \<^verbatim>\<open>__proto__\<close>,
  which reads as the prototype object itself). Every one of them is truthy.
\<close>

definition object_prototype_names :: "string list" where
  "object_prototype_names =
     [''constructor'', ''__defineGetter__'', ''__defineSetter__'', ''hasOwnProperty'',
      ''__lookupGetter__'', ''__lookupSetter__'', ''isPrototypeOf'', ''propertyIsEnumerable'',
      ''toString'', ''valueOf'', ''__proto__'', ''toLocaleString'']"

text \<open>
  What a property read can produce in the places modelled here: a string, a member
  inherited from \<^verbatim>\<open>Object.prototype\<close> (named by its property name), or nothing.
\<close>

datatype js_value = JString string | JInherited string | JUndefined

fun truthy :: "js_value \<Rightarrow> bool" where
  "truthy (JString s) = (s \<noteq> [])"
| "truthy (JInherited n) = True"
| "truthy JUndefined = False"

definition get_property :: "(string \<times> string) list \<Rightarrow> string \<Rightarrow> js_value" where
  "get_property own key =
     (case map_of own key of
        Some v \<Rightarrow> JString v
      | None \<Rightarrow> if key \<in> set object_prototype_names then JInherited key else JUndefined)"

section \<open>The rule engine's result\<close>

text \<open>
  The result of \<^verbatim>\<open>axeBuilder.analyze()\<close>: four arrays of rule results. A rule result
  carries its id, texts, impact (a string, or \<^verbatim>\<open>null\<close>, here \<^const>\<open>None\<close>), tags and the
  affected nodes.
\<close>

record node =
  target :: "string list"
  html :: string

record rule =
  rule_id :: string
  description :: string
  help_text :: string
  helpUrl :: string
  impact :: "string option"
  tags :: "string list"
  nodes :: "node list"

record axe_results =
  violations :: "rule list"
  passes :: "rule list"
  incomplete :: "rule list"
  inapplicable :: "rule list"

text \<open>\<^verbatim>\<open>`${violation.impact}`\<close>: a \<^verbatim>\<open>null\<close> impact prints as the text null.\<close>

definition impact_text :: "string option \<Rightarrow> string" where
  "impact_text i = (case i of None \<Rightarrow> ''null'' | Some s \<Rightarrow> s)"

section \<open>Export formatters\<close>

subsection \<open>JUnit\<close>

record junit_failure =
  message :: string
  failure_type :: string
  failure_text :: string

record testcase =
  classname :: string
  tc_name :: string
  failure :: "junit_failure option"

record testsuite =
  suite_name :: string
  tests :: nat
  failures :: nat
  testcases :: "testcase list"

definition violation_testcase :: "rule \<Rightarrow> testcase" where
  "violation_testcase violation =
     \<lparr> classname = ''accessibility.violations'',
       tc_name = rule_id violation @ '' - '' @ description violation,
       failure = Some
         \<lparr> message = impact_text (impact violation) @ '' violation: '' @ description violation,
           failure_type = ''AssertionError'',
           failure_text = ''Violation found on '' @ show_nat (length (nodes violation))
                    @ '' element(s). Help: '' @ helpUrl violation \<rparr> \<rparr>"

definition pass_testcase :: "rule \<Rightarrow> testcase" where
  "pass_testcase pass =
     \<lparr> classname = ''accessibility.passes'',
       tc_name = rule_id pass @ '' - '' @ description pass,
       failure = None \<rparr>"

text \<open>The \<^verbatim>\<open>testSuites[0]\<close> object of \<^verbatim>\<open>generateJUnitReport\<close>.\<close>

definition junit_suite :: "axe_results \<Rightarrow> testsuite" where
  "junit_suite results =
     \<lparr> suite_name = ''Accessibility Tests'',
       tests = length (violations results) + length (passes results),
       failures = length (violations results),
       testcases = map violation_testcase (violations results)
                     @ map pass_testcase (passes results) \<rparr>"

definition escape_char :: "char \<Rightarrow> string \<Rightarrow> string \<Rightarrow> string" where
  "escape_char c rep s = concat (map (\<lambda>x. if x = c then rep else [x]) s)"

definition escapeXml :: "string \<Rightarrow> string" where
  \<open>escapeXml text =
     escape_char (CHR 0x27) ''&apos;''
       (escape_char (CHR 0x22) ''&quot;''
         (escape_char (CHR ''>'') ''&gt;''
           (escape_char (CHR ''<'') ''&lt;''
             (escape_char (CHR ''&'') ''&amp;'' text))))\<close>

text \<open>
  The XML text that \<^verbatim>\<open>generateJUnitReport\<close> returns is a template literal over the
  suite. The name of a test case is written as it is; the message and the text of a failure
  go through \<^verbatim>\<open>escapeXml\<close>.
\<close>

definition failure_xml :: "junit_failure \<Rightarrow> string" where
  \<open>failure_xml f =
     ''<failure message="'' @ escapeXml (message f) @ ''" type="'' @ failure_type f @ ''">''
     @ escapeXml (failure_text f) @ ''</failure>''\<close>

definition testcase_xml :: "testcase \<Rightarrow> string" where
  \<open>testcase_xml tc =
     ''\<newline>    <testcase classname="'' @ classname tc @ ''" name="'' @ tc_name tc @ ''" time="0">''
     @ ''\<newline>      '' @ (case failure tc of None \<Rightarrow> [] | Some f \<Rightarrow> failure_xml f)
     @ ''\<newline>    </testcase>''\<close>

definition generateJUnitReport :: "axe_results \<Rightarrow> string" where
  \<open>generateJUnitReport results =
     (let suite = junit_suite results in
      ''<?xml version="1.0" encoding="UTF-8"?>''
      @ ''\<newline><testsuites name="Accessibility Tests" tests="'' @ show_nat (tests suite)
      @ ''" failures="'' @ show_nat (failures suite) @ ''" time="0">''
      @ ''\<newline>  <testsuite name="'' @ suite_name suite @ ''" tests="'' @ show_nat (tests suite)
      @ ''" failures="'' @ show_nat (failures suite) @ ''" time="0">''
      @ ''\<newline>    '' @ concat (map testcase_xml (testcases suite))
      @ ''\<newline>  </testsuite>''
      @ ''\<newline></testsuites>'')\<close>

text \<open>The violation-node pairs of a result: one per node of each violation.\<close>

definition violation_node_pairs :: "axe_results \<Rightarrow> (rule \<times> node) list" where
  "violation_node_pairs results =
     concat (map (\<lambda>v. map (\<lambda>n. (v, n)) (nodes v)) (violations results))"

subsection \<open>SARIF\<close>

text \<open>
  \<^verbatim>\<open>mapping[impact] || 'warning'\<close>: the key is the impact converted to a string
  (\<^verbatim>\<open>null\<close> reads the key null, which no object has), the read follows the prototype
  chain, and \<^verbatim>\<open>||\<close> keeps the left value when it is truthy.
\<close>

definition impact_mapping :: "(string \<times> string) list" where
  "impact_mapping =
     [(''critical'', ''error''), (''serious'', ''error''),
      (''moderate'', ''warning''), (''minor'', ''note'')]"

definition mapImpactToLevel :: "string option \<Rightarrow> js_value" where
  "mapImpactToLevel i =
     (let v = get_property impact_mapping (impact_text i)
      in if truthy v then v else JString ''warning'')"

record sarif_result =
  ruleId :: string
  message_text :: string
  level :: js_value
  snippet :: string

definition sarif_results :: "axe_results \<Rightarrow> sarif_result list" where
  "sarif_results results =
     concat (map (\<lambda>violation.
        map (\<lambda>node. \<lparr> ruleId = rule_id violation,
                        message_text = description violation,
                        level = mapImpactToLevel (impact violation),
                        snippet = html node \<rparr>) (nodes violation))
       (violations results))"

subsection \<open>Executive summary\<close>

text \<open>
  JavaScript numbers are IEEE 754 double precision values. The operators \<^verbatim>\<open>/\<close> and
  \<^verbatim>\<open>*\<close> return the exact quotient or product rounded to the nearest double, ties to
  the even significand. A positive \<open>q\<close> with \<open>2\<^sup>e \<le> q < 2\<^sup>e\<^sup>+\<^sup>1\<close> lies between doubles
  that are \<open>2\<^sup>e\<^sup>-\<^sup>5\<^sup>2\<close> apart. Exact values are rationals here; the operands that arise
  (array lengths, their quotients, and these times 100) are non-negative and far from
  overflow and from the subnormal range.
\<close>

definition binary_exponent :: "rat \<Rightarrow> int" where
  "binary_exponent q =
     (let (a, b) = quotient_of q; d = bitlen a - bitlen b
      in if 2 powi d \<le> q then d else d - 1)"

definition round_half_even :: "rat \<Rightarrow> int" where
  "round_half_even x =
     (let f = \<lfloor>x\<rfloor>
      in if x - of_int f < 1 / 2 then f
         else if 1 / 2 < x - of_int f then f + 1
         else if even f then f else f + 1)"

definition round_to_double :: "rat \<Rightarrow> rat" where
  "round_to_double q =
     (if q \<le> 0 then 0
      else let ulp = 2 powi (binary_exponent q - 52)
           in of_int (round_half_even (q / ulp)) * ulp)"

definition js_divide :: "nat \<Rightarrow> nat \<Rightarrow> rat" where
  "js_divide a b = round_to_double (of_nat a / of_nat b)"

definition js_times :: "rat \<Rightarrow> rat \<Rightarrow> rat" where
  "js_times x y = round_to_double (x * y)"

text \<open>\<^verbatim>\<open>Math.round\<close>: the nearest integer, the larger one of two equally near.\<close>

definition Math_round :: "rat \<Rightarrow> int" where
  "Math_round x = \<lfloor>x + 1 / 2\<rfloor>"

text \<open>
  The own properties of an object are enumerated (\<^verbatim>\<open>Object.entries\<close>,
  \<^verbatim>\<open>Object.values\<close>) with the keys that are array indices first, in ascending numeric
  order, and the other keys after them in the order of their creation. An array index is
  the decimal text, without leading zero, of an integer below \<open>2\<^sup>3\<^sup>2 - 1\<close>.
\<close>

definition is_digit :: "char \<Rightarrow> bool" where
  "is_digit c \<longleftrightarrow> 48 \<le> (of_char c :: nat) \<and> (of_char c :: nat) \<le> 57"

definition digits_value :: "string \<Rightarrow> int" where
  "digits_value s = foldl (\<lambda>n c. 10 * n + (of_char c - 48)) 0 s"

definition is_array_index :: "string \<Rightarrow> bool" where
  "is_array_index s \<longleftrightarrow>
     s \<noteq> [] \<and> list_all is_digit s \<and> (hd s \<noteq> CHR ''0'' \<or> s = ''0'')
     \<and> digits_value s < 4294967295"

definition own_property_order :: "(string \<times> 'v) list \<Rightarrow> (string \<times> 'v) list" where
  "own_property_order kvs =
     sort_key (\<lambda>kv. digits_value (fst kv)) (filter (\<lambda>kv. is_array_index (fst kv)) kvs)
       @ filter (\<lambda>kv. \<not> is_array_index (fst kv)) kvs"

text \<open>
  \<^verbatim>\<open>s.replace(pat, rep)\<close> with a string pattern replaces the first occurrence only.
  Case conversion is modelled for texts of ASCII characters, as the tags of the rule
  engine are: \<open>to_upper\<close> and \<open>to_lower\<close> leave every other character as it is.
\<close>

fun replace_first :: "string \<Rightarrow> string \<Rightarrow> string \<Rightarrow> string" where
  "replace_first pat rep [] = (if pat = [] then rep else [])"
| "replace_first pat rep (c # cs) =
     (if prefix pat (c # cs) then rep @ drop (length pat) (c # cs)
      else c # replace_first pat rep cs)"

definition to_upper :: "char \<Rightarrow> char" where
  "to_upper c =
     (if 97 \<le> (of_char c :: nat) \<and> (of_char c :: nat) \<le> 122
      then char_of (of_char c - (32::nat)) else c)"

definition to_lower :: "char \<Rightarrow> char" where
  "to_lower c =
     (if 65 \<le> (of_char c :: nat) \<and> (of_char c :: nat) \<le> 90
      then char_of (of_char c + (32::nat)) else c)"

text \<open>
  \<^verbatim>\<open>severityCounts\<close> starts with the four counts at 0. For each violation the code runs
  \<^verbatim>\<open>if (severityCounts[violation.impact]) severityCounts[violation.impact] += n\<close>.
  The condition reads the current count, and the number 0 is falsy. For an impact that is
  none of the four keys the read yields \<^verbatim>\<open>undefined\<close> or an inherited member, and the
  assignment, if it happens, concerns a property of that other name: the four counts stay
  as they are.
\<close>

record severity_counts =
  critical :: nat
  serious :: nat
  moderate :: nat
  minor :: nat

definition severity_get :: "severity_counts \<Rightarrow> string \<Rightarrow> nat option" where
  "severity_get sc k =
     (if k = ''critical'' then Some (critical sc)
      else if k = ''serious'' then Some (serious sc)
      else if k = ''moderate'' then Some (moderate sc)
      else if k = ''minor'' then Some (minor sc)
      else None)"

definition severity_set :: "severity_counts \<Rightarrow> string \<Rightarrow> nat \<Rightarrow> severity_counts" where
  "severity_set sc k n =
     (if k = ''critical'' then sc\<lparr> critical := n \<rparr>
      else if k = ''serious'' then sc\<lparr> serious := n \<rparr>
      else if k = ''moderate'' then sc\<lparr> moderate := n \<rparr>
      else if k = ''minor'' then sc\<lparr> minor := n \<rparr>
      else sc)"

definition count_severity :: "severity_counts \<Rightarrow> rule \<Rightarrow> severity_counts" where
  "count_severity sc violation =
     (let key = impact_text (impact violation) in
      case severity_get sc key of
        Some c \<Rightarrow> if c \<noteq> 0 then severity_set sc key (c + length (nodes violation)) else sc
      | None \<Rightarrow> sc)"

text \<open>
  \<^verbatim>\<open>categories\<close> counts, per category, the tags that start with \<^verbatim>\<open>cat.\<close>; it is an
  object used as a dictionary, modelled as an association list in creation order. The
  model of \<^verbatim>\<open>(categories[category] || 0) + 1\<close> is that of a category that is not
  named like a member of \<^verbatim>\<open>Object.prototype\<close> (no category tag of the rule engine
  is): there the read yields the count or \<^verbatim>\<open>undefined\<close>, and the result is a number.
  \<^verbatim>\<open>Array.prototype.sort\<close> is stable.
\<close>

definition category_of :: "string \<Rightarrow> string" where
  "category_of tag = replace_first ''-'' '' '' (replace_first ''cat.'' [] tag)"

fun bump :: "string \<Rightarrow> (string \<times> nat) list \<Rightarrow> (string \<times> nat) list" where
  "bump k [] = [(k, 1)]"
| "bump k ((k', n) # kvs) = (if k = k' then (k', n + 1) # kvs else (k', n) # bump k kvs)"

definition count_tag :: "(string \<times> nat) list \<Rightarrow> string \<Rightarrow> (string \<times> nat) list" where
  "count_tag categories tag =
     (if prefix ''cat.'' tag then bump (category_of tag) categories else categories)"

definition count_categories :: "rule list \<Rightarrow> (string \<times> nat) list" where
  "count_categories vs = foldl (\<lambda>categories v. foldl count_tag categories (tags v)) [] vs"

definition capitalize :: "string \<Rightarrow> string" where
  "capitalize s = (case s of [] \<Rightarrow> [] | c # cs \<Rightarrow> to_upper c # cs)"

definition top_categories :: "rule list \<Rightarrow> (string \<times> nat) list" where
  "top_categories vs =
     map (\<lambda>(category, n). (capitalize category, n))
       (take 5 (sort_key (\<lambda>kv. - int (snd kv)) (own_property_order (count_categories vs))))"

record summary =
  totalRules :: nat
  totalViolations :: nat
  severityCounts :: severity_counts
  score :: int
  grade :: string
  topCategories :: "(string \<times> nat) list"
  recommendations :: "string list"

definition grade_of :: "int \<Rightarrow> string" where
  "grade_of s =
     (if s \<ge> 95 then ''Excellent''
      else if s \<ge> 85 then ''Good''
      else if s \<ge> 70 then ''Fair''
      else ''Needs Improvement'')"

definition recommendations_of :: "severity_counts \<Rightarrow> nat \<Rightarrow> (string \<times> nat) list \<Rightarrow> string list" where
  "recommendations_of sc incompleteCount topCats =
     (let r1 = (if critical sc > 0
                then [''Address '' @ show_nat (critical sc)
                        @ '' critical accessibility issues immediately'']
                else []);
          r2 = r1 @ (if serious sc > 0
                then [''Fix '' @ show_nat (serious sc)
                        @ '' serious violations that impact user experience'']
                else []);
          r3 = r2 @ (if incompleteCount > 0
                then [''Review '' @ show_nat incompleteCount
                        @ '' incomplete tests that require manual verification'']
                else []);
          r4 = r3 @ (case topCats of
                  [] \<Rightarrow> []
                | (category, n) # _ \<Rightarrow>
                    [''Focus on '' @ map to_lower category @ '' improvements (''
                       @ show_nat n @ '' issues)''])
      in if r4 = [] then [''Great job! Continue monitoring for accessibility regressions'']
         else r4)"

definition calculateSummaryStats :: "axe_results \<Rightarrow> summary" where
  "calculateSummaryStats results =
     (let totalRules = length (violations results) + length (passes results)
                         + length (incomplete results) + length (inapplicable results);
          totalViolations = foldl (\<lambda>sum v. sum + length (nodes v)) 0 (violations results);
          severityCounts = foldl count_severity
             \<lparr> critical = 0, serious = 0, moderate = 0, minor = 0 \<rparr> (violations results);
          passedTests = length (passes results);
          score = (if totalRules > 0
                   then Math_round (js_times (js_divide passedTests totalRules) 100)
                   else 100);
          topCategories = top_categories (violations results)
      in \<lparr> totalRules = totalRules, totalViolations = totalViolations,
           severityCounts = severityCounts, score = score, grade = grade_of score,
           topCategories = topCategories,
           recommendations =
             recommendations_of severityCounts (length (incomplete results)) topCategories \<rparr>)"

section \<open>Report consolidation\<close>

text \<open>
  The regular expressions that read the cells of a row combine literal texts with lazy
  \<^verbatim>\<open>[\s\S]*?\<close> gaps, so a match is found by looking for the first occurrence of each
  literal after the previous one. \<open>split_at pat s\<close> splits \<open>s\<close> around the first
  occurrence of \<open>pat\<close>.
\<close>

fun split_at :: "string \<Rightarrow> string \<Rightarrow> (string \<times> string) option" where
  "split_at pat [] = (if pat = [] then Some ([], []) else None)"
| "split_at pat (c # cs) =
     (if prefix pat (c # cs) then Some ([], drop (length pat) (c # cs))
      else map_option (\<lambda>(before, after). (c # before, after)) (split_at pat cs))"

text \<open>
  \<^verbatim>\<open>trim()\<close> removes white space at both ends (of the characters below 256: tab, line
  feed, vertical tab, form feed, carriage return, space and no-break space).
\<close>

definition js_space :: "char \<Rightarrow> bool" where
  "js_space c \<longleftrightarrow> (of_char c :: nat) \<in> {9, 10, 11, 12, 13, 32, 160}"

definition trim :: "string \<Rightarrow> string" where
  "trim s = rev (dropWhile js_space (rev (dropWhile js_space s)))"

text \<open>
  \<^verbatim>\<open>row.match(/<td>[\s\S]*?<\/td>[\s\S]*?<td>([\s\S]*?)<\/td>/)\<close>: the trimmed content
  of the second cell of the row, or the empty string when the row has no two cells.
\<close>

definition extractFixInstructions :: "string \<Rightarrow> string" where
  "extractFixInstructions row =
     (case split_at ''<td>'' row of None \<Rightarrow> [] | Some (_, r1) \<Rightarrow>
      case split_at ''</td>'' r1 of None \<Rightarrow> [] | Some (_, r2) \<Rightarrow>
      case split_at ''<td>'' r2 of None \<Rightarrow> [] | Some (_, r3) \<Rightarrow>
      case split_at ''</td>'' r3 of None \<Rightarrow> [] | Some (cell, _) \<Rightarrow> trim cell)"

text \<open>
  \<^verbatim>\<open>/<pre><code[^>]*>(.*?)<\/code><\/pre>/\<close>: the dot matches no line terminator, so
  a block whose content up to the first closing tags contains one does not match, and the
  search goes on at the next position.
\<close>

definition line_terminator :: "char \<Rightarrow> bool" where
  "line_terminator c \<longleftrightarrow> (of_char c :: nat) \<in> {10, 13}"

definition block_here :: "string \<Rightarrow> (string \<times> string) option" where
  "block_here s =
     (if prefix ''<pre><code'' s
      then case dropWhile (\<lambda>c. c \<noteq> CHR ''>'') (drop 10 s) of
             [] \<Rightarrow> None
           | _ # body \<Rightarrow>
               (case split_at ''</code></pre>'' body of
                  None \<Rightarrow> None
                | Some (content, rest) \<Rightarrow>
                    if list_ex line_terminator content then None else Some (content, rest))
      else None)"

fun code_block :: "string \<Rightarrow> (string \<times> string) option" where
  "code_block [] = None"
| "code_block (c # cs) =
     (case block_here (c # cs) of Some r \<Rightarrow> Some r | None \<Rightarrow> code_block cs)"

text \<open>
  \<^verbatim>\<open>extractElementInfo\<close> returns the empty string for a row without a cell and an
  object with the fields location and source otherwise: the contents of the first code block
  of the first cell, and of the next code block after it.
\<close>

datatype element_info = NoCell | Info (location: string) (source: string)

definition extractElementInfo :: "string \<Rightarrow> element_info" where
  "extractElementInfo row =
     (case split_at ''<td>'' row of None \<Rightarrow> NoCell | Some (_, r1) \<Rightarrow>
      case split_at ''</td>'' r1 of None \<Rightarrow> NoCell | Some (cellContent, _) \<Rightarrow>
        (case code_block cellContent of
           None \<Rightarrow> Info [] []
         | Some (loc, rest) \<Rightarrow>
             (case code_block rest of
                None \<Rightarrow> Info loc []
              | Some (src, _) \<Rightarrow> Info loc src)))"

text \<open>
  The groups are collected in an object keyed by the fix instructions. For a key that
  names a member of \<^verbatim>\<open>Object.prototype\<close> the test \<^verbatim>\<open>!groups[key]\<close> finds the
  inherited member, no group is created, and \<^verbatim>\<open>groups[key].rows.push(row)\<close> throws a
  TypeError.
\<close>

datatype js_error = TypeError string

record group =
  fixInstructions :: string
  rows :: "string list"
  elements :: "element_info list"
  count_n :: nat

definition add_row :: "(string \<times> group) list \<Rightarrow> string \<Rightarrow> js_error + (string \<times> group) list" where
  \<open>add_row groups row =
     (let key = extractFixInstructions row in
      case map_of groups key of
        Some _ \<Rightarrow>
          Inr (map (\<lambda>(k, g). if k = key
                              then (k, g\<lparr> rows := rows g @ [row],
                                         elements := elements g @ [extractElementInfo row],
                                         count_n := count_n g + 1 \<rparr>)
                              else (k, g)) groups)
      | None \<Rightarrow>
          if key \<in> set object_prototype_names
          then Inl (TypeError ''Cannot read properties of undefined (reading 'push')'')
          else Inr (groups @ [(key, \<lparr> fixInstructions = key, rows = [row],
                                       elements = [extractElementInfo row], count_n = 1 \<rparr>)]))\<close>

fun group_rows :: "(string \<times> group) list \<Rightarrow> string list \<Rightarrow> js_error + (string \<times> group) list" where
  "group_rows groups [] = Inr groups"
| "group_rows groups (row # rest) =
     (case add_row groups row of Inl e \<Rightarrow> Inl e | Inr groups' \<Rightarrow> group_rows groups' rest)"

definition groupSimilarViolations :: "string list \<Rightarrow> js_error + group list" where
  "groupSimilarViolations dataRows =
     (case group_rows [] dataRows of
        Inl e \<Rightarrow> Inl e
      | Inr groups \<Rightarrow> Inr (map snd (own_property_order groups)))"

text \<open>
  \<^verbatim>\<open>createConsolidatedRow\<close>. An element that is the empty string (a row without a
  cell) has no \<^verbatim>\<open>source\<close>, and \<^verbatim>\<open>el.source.substring\<close> throws a TypeError.
\<close>

definition example_html :: "string \<Rightarrow> string \<Rightarrow> string" where
  \<open>example_html loc src =
     ''\<newline>      <div style="margin-bottom: 8px; padding: 4px; background: #f8f9fa; border-left: 2px solid #007bff;">''
     @ ''\<newline>        <div><strong>Location:</strong> <code>'' @ loc @ ''</code></div>''
     @ ''\<newline>        <div><strong>Element:</strong> <code>'' @ take 100 src
     @ (if length src > 100 then ''...'' else []) @ ''</code></div>''
     @ ''\<newline>      </div>\<newline>    ''\<close>

fun render_element :: "element_info \<Rightarrow> js_error + string" where
  \<open>render_element NoCell =
     Inl (TypeError ''Cannot read properties of undefined (reading 'substring')'')\<close>
| \<open>render_element (Info loc src) = Inr (example_html loc src)\<close>

fun render_elements :: "element_info list \<Rightarrow> js_error + string list" where
  "render_elements [] = Inr []"
| "render_elements (el # els) =
     (case render_element el of
        Inl e \<Rightarrow> Inl e
      | Inr h \<Rightarrow> (case render_elements els of Inl e \<Rightarrow> Inl e | Inr hs \<Rightarrow> Inr (h # hs)))"

definition more_line :: "nat \<Rightarrow> string" where
  \<open>more_line n =
     ''<div style="margin-top: 8px; font-style: italic; color: #666;">''
     @ ''\<newline>        + '' @ show_nat n @ '' more similar element'' @ (if n > 1 then ''s'' else [])
     @ ''\<newline>      </div>''\<close>

definition remainingText :: "int \<Rightarrow> string" where
  "remainingText remainingCount = (if remainingCount > 0 then more_line (nat remainingCount) else [])"

definition consolidated_row_html :: "nat \<Rightarrow> string \<Rightarrow> string \<Rightarrow> string \<Rightarrow> string" where
  \<open>consolidated_row_html n elementsList remaining fix =
     ''\<newline>      <tr>''
     @ ''\<newline>        <td><strong>'' @ show_nat n @ ''</strong></td>''
     @ ''\<newline>        <td>''
     @ ''\<newline>          <p><strong>Multiple similar violations ('' @ show_nat n @ '' elements)</strong></p>''
     @ ''\<newline>          <div style="max-height: 200px; overflow-y: auto;">''
     @ ''\<newline>            '' @ elementsList
     @ ''\<newline>            '' @ remaining
     @ ''\<newline>          </div>''
     @ ''\<newline>        </td>''
     @ ''\<newline>        <td>'' @ fix @ ''</td>''
     @ ''\<newline>      </tr>\<newline>    ''\<close>

definition createConsolidatedRow :: "group \<Rightarrow> js_error + string" where
  "createConsolidatedRow g =
     (let els = take 3 (elements g);
          remainingCount = int (count_n g) - 3
      in case render_elements els of
           Inl e \<Rightarrow> Inl e
         | Inr htmls \<Rightarrow>
             Inr (consolidated_row_html (count_n g) (concat htmls)
                    (remainingText remainingCount) (fixInstructions g)))"

text \<open>
  The body of \<^verbatim>\<open>groupedRows.forEach\<close> in \<^verbatim>\<open>optimizeViolationTables\<close>, and the
  rebuilt table. \<open>tableRows\<close> are the contents of the \<^verbatim>\<open><tr>\<close> elements of one table,
  the header row first; a table with at most one row is kept as it is (\<^const>\<open>None\<close>).
\<close>

definition render_group :: "group \<Rightarrow> js_error + string" where
  "render_group g =
     (if count_n g = 1
      then Inr (''<tr>'' @ (case rows g of [] \<Rightarrow> ''undefined'' | r # _ \<Rightarrow> r) @ ''</tr>'')
      else createConsolidatedRow g)"

fun render_groups :: "group list \<Rightarrow> js_error + string" where
  "render_groups [] = Inr []"
| "render_groups (g # gs) =
     (case render_group g of
        Inl e \<Rightarrow> Inl e
      | Inr h \<Rightarrow> (case render_groups gs of Inl e \<Rightarrow> Inl e | Inr hs \<Rightarrow> Inr (h @ hs)))"

definition optimizeTable :: "string list \<Rightarrow> js_error + string option" where
  \<open>optimizeTable tableRows =
     (case tableRows of
        [] \<Rightarrow> Inr None
      | [headerRow] \<Rightarrow> Inr None
      | headerRow # dataRows \<Rightarrow>
          (case groupSimilarViolations dataRows of
             Inl e \<Rightarrow> Inl e
           | Inr groupedRows \<Rightarrow>
               (case render_groups groupedRows of
                  Inl e \<Rightarrow> Inl e
                | Inr body \<Rightarrow>
                    Inr (Some (''<table class="table table-sm table-bordered">''
                                @ ''<tr>'' @ headerRow @ ''</tr>'' @ body @ ''</table>'')))))\<close>

section \<open>Batch runs\<close>

text \<open>
  What happens inside the \<^verbatim>\<open>try\<close> block of one loop iteration is outside the
  program: the page is opened, loaded and analysed, screenshots are taken, the report is
  written. The model takes it as a parameter: for the URL at position \<open>i\<close>, either the
  block throws an error with a message (\<^const>\<open>Inl\<close>) or it runs to its end with the rule
  engine's result (\<^const>\<open>Inr\<close>).
\<close>

type_synonym page_audit = "nat \<Rightarrow> string \<Rightarrow> string + axe_results"

subsection \<open>The background task of \<^verbatim>\<open>/api/batch-test\<close>\<close>

text \<open>
  The entries of \<^verbatim>\<open>batchProgress.results\<close>, without the fields made of random ids
  and clock readings (\<^verbatim>\<open>testId\<close>, \<^verbatim>\<open>batchId\<close>, \<^verbatim>\<open>timestamp\<close>, \<^verbatim>\<open>reportUrl\<close>).
\<close>

record batch_result =
  br_url :: string
  br_status :: string
  br_error :: "string option"
  br_violations :: nat
  br_passes :: nat
  br_incomplete :: nat
  br_inapplicable :: nat

record batch_progress =
  status :: string
  totalUrls :: nat
  completedUrls :: nat
  failedUrls :: nat
  results :: "batch_result list"
  error :: "string option"

definition summary_of :: "string \<Rightarrow> axe_results \<Rightarrow> batch_result" where
  "summary_of url res =
     \<lparr> br_url = url, br_status = ''completed'', br_error = None,
       br_violations = length (violations res), br_passes = length (passes res),
       br_incomplete = length (incomplete res), br_inapplicable = length (inapplicable res) \<rparr>"

definition failedResult :: "string \<Rightarrow> string \<Rightarrow> batch_result" where
  "failedResult url msg =
     \<lparr> br_url = url, br_status = ''failed'', br_error = Some msg,
       br_violations = 0, br_passes = 0, br_incomplete = 0, br_inapplicable = 0 \<rparr>"

text \<open>
  One iteration of the loop over \<^verbatim>\<open>urls\<close>. The status endpoint can read the record
  only while the task waits for an awaited operation. An iteration sets the status, waits
  for the page work (state \<open>testing_state\<close>) and then, without waiting in between, pushes
  the result, increments the counters and sets the status again (state \<open>after_url\<close>).
\<close>

definition testing_state :: "string \<Rightarrow> batch_progress \<Rightarrow> batch_progress" where
  "testing_state url bp = bp\<lparr> status := ''Testing '' @ url \<rparr>"

definition after_url :: "page_audit \<Rightarrow> nat \<Rightarrow> string \<Rightarrow> batch_progress \<Rightarrow> batch_progress" where
  "after_url audit i url bp =
     (let bp1 = testing_state url bp;
          bp2 = (case audit i url of
                   Inr res \<Rightarrow>
                     bp1\<lparr> results := results bp1 @ [summary_of url res],
                          completedUrls := completedUrls bp1 + 1 \<rparr>
                 | Inl msg \<Rightarrow>
                     bp1\<lparr> results := results bp1 @ [failedResult url msg],
                          failedUrls := failedUrls bp1 + 1,
                          completedUrls := completedUrls bp1 + 1 \<rparr>)
      in bp2\<lparr> status := ''Completed '' @ show_nat (completedUrls bp2) @ ''/''
                              @ show_nat (totalUrls bp2) @ '' URLs'' \<rparr>)"

text \<open>The states the loop passes through, in time order, from position \<open>i\<close> on.\<close>

fun batch_loop :: "page_audit \<Rightarrow> nat \<Rightarrow> string list \<Rightarrow> batch_progress \<Rightarrow> batch_progress list" where
  "batch_loop audit i [] bp = []"
| "batch_loop audit i (url # urls) bp =
     testing_state url bp # after_url audit i url bp
       # batch_loop audit (Suc i) urls (after_url audit i url bp)"

definition initial_progress :: "string list \<Rightarrow> batch_progress" where
  "initial_progress urls =
     \<lparr> status = ''running'', totalUrls = length urls, completedUrls = 0, failedUrls = 0,
       results = [], error = None \<rparr>"

text \<open>
  The whole task. \<open>launch\<close> is \<^term>\<open>Some msg\<close> when \<^verbatim>\<open>chromium.launch()\<close> or
  \<^verbatim>\<open>browser.newContext()\<close> throws: the outer \<^verbatim>\<open>catch\<close> then sets the status to
  failed and records the message. The \<^verbatim>\<open>finally\<close> block runs on every path and
  assigns the final status.
\<close>

definition finalize :: "batch_progress \<Rightarrow> batch_progress" where
  "finalize bp =
     bp\<lparr> status := (if failedUrls bp = totalUrls bp then ''failed'' else ''completed'') \<rparr>"

definition batch_states :: "string option \<Rightarrow> page_audit \<Rightarrow> string list \<Rightarrow> batch_progress list" where
  "batch_states launch audit urls =
     initial_progress urls #
       (case launch of
          Some msg \<Rightarrow> [(initial_progress urls)\<lparr> status := ''failed'', error := Some msg \<rparr>]
        | None \<Rightarrow> batch_loop audit 0 urls (initial_progress urls))"

definition batch_trace :: "string option \<Rightarrow> page_audit \<Rightarrow> string list \<Rightarrow> batch_progress list" where
  "batch_trace launch audit urls =
     batch_states launch audit urls @ [finalize (last (batch_states launch audit urls))]"

definition batch_final :: "string option \<Rightarrow> page_audit \<Rightarrow> string list \<Rightarrow> batch_progress" where
  "batch_final launch audit urls = finalize (last (batch_states launch audit urls))"

text \<open>
  The handler answers 400 and starts no task unless \<^verbatim>\<open>urls\<close> is a non-empty array.
\<close>

definition batch_test :: "string option \<Rightarrow> page_audit \<Rightarrow> string list \<Rightarrow> batch_progress list option" where
  "batch_test launch audit urls =
     (if urls = [] then None else Some (batch_trace launch audit urls))"

text \<open>The URLs of a run whose audit throws.\<close>

definition failing_positions :: "page_audit \<Rightarrow> string list \<Rightarrow> nat list" where
  "failing_positions audit urls = filter (\<lambda>i. isl (audit i (urls ! i))) [0..<length urls]"

subsection \<open>The handler of \<^verbatim>\<open>/api/ci/test-urls\<close>\<close>

record ci_options =
  failOnViolations :: bool
  maxViolations :: int
  continueOnFailure :: bool

record violation_detail =
  vd_id :: string
  vd_description :: string
  vd_impact :: "string option"
  vd_nodes :: nat

record ci_result =
  cr_url :: string
  cr_success :: bool
  cr_error :: "string option"
  cr_violations :: nat
  cr_passes :: nat
  cr_incomplete :: nat
  cr_violationDetails :: "violation_detail list"

definition tested_result :: "ci_options \<Rightarrow> string \<Rightarrow> axe_results \<Rightarrow> ci_result" where
  "tested_result opts url testResults =
     (let violationCount = length (violations testResults);
          urlSuccess = (\<not> failOnViolations opts \<or> int violationCount \<le> maxViolations opts)
      in \<lparr> cr_url = url, cr_success = urlSuccess, cr_error = None,
           cr_violations = violationCount,
           cr_passes = length (passes testResults),
           cr_incomplete = length (incomplete testResults),
           cr_violationDetails =
             map (\<lambda>v. \<lparr> vd_id = rule_id v, vd_description = description v,
                          vd_impact = impact v, vd_nodes = length (nodes v) \<rparr>)
               (violations testResults) \<rparr>)"

definition thrown_result :: "string \<Rightarrow> string \<Rightarrow> ci_result" where
  "thrown_result url msg =
     \<lparr> cr_url = url, cr_success = False, cr_error = Some msg,
       cr_violations = 0, cr_passes = 0, cr_incomplete = 0, cr_violationDetails = [] \<rparr>"

text \<open>
  The loop \<^verbatim>\<open>for (const url of urls)\<close> with its two \<^verbatim>\<open>break\<close> statements; the state
  is the pair of \<^verbatim>\<open>results\<close> and \<^verbatim>\<open>overallSuccess\<close>. (The entry pushed for a thrown
  error has only the fields url, success and error; the counts it lacks are 0 here.)
\<close>

fun ci_loop :: "ci_options \<Rightarrow> page_audit \<Rightarrow> nat \<Rightarrow> string list
                  \<Rightarrow> ci_result list \<times> bool \<Rightarrow> ci_result list \<times> bool" where
  "ci_loop opts audit i [] acc = acc"
| "ci_loop opts audit i (url # urls) (rs, overallSuccess) =
     (case audit i url of
        Inr testResults \<Rightarrow>
          (let r = tested_result opts url testResults;
               overallSuccess' = (if \<not> cr_success r then False else overallSuccess)
           in if \<not> cr_success r \<and> \<not> continueOnFailure opts
              then (rs @ [r], overallSuccess')
              else ci_loop opts audit (Suc i) urls (rs @ [r], overallSuccess'))
      | Inl msg \<Rightarrow>
          (if \<not> continueOnFailure opts
           then (rs @ [thrown_result url msg], False)
           else ci_loop opts audit (Suc i) urls (rs @ [thrown_result url msg], False)))"

record ci_report =
  ci_success :: bool
  ci_totalUrls :: nat
  ci_testedUrls :: nat
  ci_passedUrls :: nat
  ci_failedUrls :: nat
  ci_results :: "ci_result list"

datatype ci_response = BadRequest | ServerError string | Report nat ci_report

text \<open>
  \<open>session\<close> is \<^term>\<open>Some msg\<close> when launching the browser, opening the context or the
  closing of the browser after the loop throws: the handler then answers 500.
\<close>

definition ci_test_urls :: "ci_options \<Rightarrow> string option \<Rightarrow> page_audit \<Rightarrow> string list \<Rightarrow> ci_response" where
  "ci_test_urls opts session audit urls =
     (if urls = [] then BadRequest
      else case session of
        Some msg \<Rightarrow> ServerError msg
      | None \<Rightarrow>
          (case ci_loop opts audit 0 urls ([], True) of
             (rs, overallSuccess) \<Rightarrow>
               Report (if \<not> overallSuccess then 422 else 200)
                 \<lparr> ci_success = overallSuccess,
                   ci_totalUrls = length urls,
                   ci_testedUrls = length rs,
                   ci_passedUrls = length (filter cr_success rs),
                   ci_failedUrls = length (filter (\<lambda>r. \<not> cr_success r) rs),
                   ci_results = rs \<rparr>))"

section \<open>Notions used in the statements and proofs\<close>

text \<open>
  The number of places of a text at which a given text starts. The elements of an XML or
  HTML text are counted by their opening tags.
\<close>

fun occurrences :: "string \<Rightarrow> string \<Rightarrow> nat" where
  "occurrences pat [] = 0"
| "occurrences pat (c # cs) = (if prefix pat (c # cs) then 1 else 0) + occurrences pat cs"

text \<open>
  The impacts that the rule engine gives a rule result: one of four strings, or
  \<^verbatim>\<open>null\<close>.
\<close>

definition rule_engine_impacts :: "string option list" where
  "rule_engine_impacts =
     [Some ''minor'', Some ''moderate'', Some ''serious'', Some ''critical'', None]"

text \<open>The entry a batch iteration pushes, and the entry a CI iteration pushes.\<close>

definition outcome_of :: "page_audit \<Rightarrow> nat \<Rightarrow> string \<Rightarrow> batch_result" where
  "outcome_of audit i u = (case audit i u of Inr res \<Rightarrow> summary_of u res | Inl msg \<Rightarrow> failedResult u msg)"

definition progress_le :: "batch_progress \<Rightarrow> batch_progress \<Rightarrow> bool" where
  "progress_le a b \<longleftrightarrow> completedUrls a \<le> completedUrls b \<and> failedUrls a \<le> failedUrls b
      \<and> prefix (results a) (results b)"

definition run_inv :: "string list \<Rightarrow> batch_progress \<Rightarrow> bool" where
  "run_inv urls s \<longleftrightarrow> failedUrls s \<le> completedUrls s \<and> completedUrls s \<le> totalUrls s
     \<and> totalUrls s = length urls \<and> length (results s) = completedUrls s
     \<and> map br_url (results s) = take (completedUrls s) urls
     \<and> failedUrls s = length (filter (\<lambda>r. br_status r = ''failed'') (results s))"

definition loop_end :: "page_audit \<Rightarrow> nat \<Rightarrow> string list \<Rightarrow> batch_progress \<Rightarrow> batch_progress" where
  "loop_end audit i us bp = last (bp # batch_loop audit i us bp)"

definition ci_outcome :: "ci_options \<Rightarrow> page_audit \<Rightarrow> nat \<Rightarrow> string \<Rightarrow> ci_result" where
  "ci_outcome opts audit i url =
     (case audit i url of Inr r \<Rightarrow> tested_result opts url r | Inl msg \<Rightarrow> thrown_result url msg)"

definition ci_new :: "ci_options \<Rightarrow> page_audit \<Rightarrow> nat \<Rightarrow> string list \<Rightarrow> ci_result list \<Rightarrow> bool" where
  "ci_new opts audit i urls new \<longleftrightarrow>
     length new \<le> length urls
     \<and> (\<forall>k<length new. new ! k = ci_outcome opts audit (i + k) (urls ! k))
     \<and> (\<not> continueOnFailure opts \<longrightarrow> (\<forall>k<length new. \<not> cr_success (new ! k) \<longrightarrow> Suc k = length new))
     \<and> (continueOnFailure opts \<longrightarrow> length new = length urls)"

text \<open>The exact percentage of passed rules, and the nodes of the violations of one impact.\<close>

definition percent :: "nat \<Rightarrow> nat \<Rightarrow> rat" where
  "percent p t = 100 * of_nat p / of_nat t"

definition impact_node_count :: "string \<Rightarrow> axe_results \<Rightarrow> nat" where
  "impact_node_count i r =
     sum_list (map (\<lambda>v. length (nodes v)) (filter (\<lambda>v. impact v = Some i) (violations r)))"

text \<open>
  The groups in closed form: the keys in the order of their first occurrence, the group
  of a key with the rows of that key in input order, and the rows of a list of groups
  listed group by group.
\<close>

primrec first_occurrences :: "'a list \<Rightarrow> 'a list" where
  "first_occurrences [] = []"
| "first_occurrences (x # xs) = x # filter (\<lambda>y. y \<noteq> x) (first_occurrences xs)"

definition group_of :: "string list \<Rightarrow> string \<Rightarrow> group" where
  "group_of rs k =
     \<lparr> fixInstructions = k,
       rows = filter (\<lambda>r. extractFixInstructions r = k) rs,
       elements = map extractElementInfo (filter (\<lambda>r. extractFixInstructions r = k) rs),
       count_n = length (filter (\<lambda>r. extractFixInstructions r = k) rs) \<rparr>"

definition grouped :: "string list \<Rightarrow> (string \<times> group) list" where
  "grouped rs = map (\<lambda>k. (k, group_of rs k)) (first_occurrences (map extractFixInstructions rs))"

definition order_keys :: "string list \<Rightarrow> string list" where
  "order_keys ks = sort_key digits_value (filter is_array_index ks) @ filter (\<lambda>k. \<not> is_array_index k) ks"

definition regrouped_rows :: "string list \<Rightarrow> string list \<Rightarrow> string list" where
  "regrouped_rows rs ks = concat (map (\<lambda>k. filter (\<lambda>r. extractFixInstructions r = k) rs) ks)"

subsection \<open>A run of three URLs whose second audit times out\<close>

definition no_findings :: axe_results where
  "no_findings = \<lparr> violations = [], passes = [], incomplete = [], inapplicable = [] \<rparr>"

definition scenario_urls :: "string list" where
  "scenario_urls = [''https://a.example/'', ''https://b.example/'', ''https://c.example/'']"

definition scenario_audit :: page_audit where
  "scenario_audit i url = (if i = 1 then Inl ''Timeout 30000ms exceeded'' else Inr no_findings)"

definition strict_options :: ci_options where
  "strict_options = \<lparr> failOnViolations = True, maxViolations = 0, continueOnFailure = False \<rparr>"

subsection \<open>Rule-engine results used as examples\<close>

definition sample_rule :: "string \<Rightarrow> string option \<Rightarrow> string list \<Rightarrow> nat \<Rightarrow> rule" where
  "sample_rule i imp tgs n =
     \<lparr> rule_id = i, description = i, help_text = i, helpUrl = ''https://rules.example/'' @ i,
       impact = imp, tags = tgs,
       nodes = replicate n \<lparr> target = [''#main''], html = ''<div id=main>'' \<rparr> \<rparr>"

text \<open>One critical violation on one node, and nothing else.\<close>

definition one_critical :: axe_results where
  "one_critical =
     \<lparr> violations = [sample_rule ''image-alt'' (Some ''critical'') [''wcag2a''] 1],
       passes = [], incomplete = [], inapplicable = [] \<rparr>"

text \<open>23 passed rules among 40 evaluated.\<close>

definition passed_23_of_40 :: axe_results where
  "passed_23_of_40 =
     \<lparr> violations = replicate 17 (sample_rule ''label'' (Some ''serious'') [''cat.forms''] 1),
       passes = replicate 23 (sample_rule ''html-has-lang'' None [''cat.language''] 0),
       incomplete = [], inapplicable = [] \<rparr>"

text \<open>One passed rule among three, and the same result with its violations swapped.\<close>

definition passed_1_of_3 :: axe_results where
  "passed_1_of_3 =
     \<lparr> violations = [sample_rule ''label'' (Some ''serious'') [''cat.forms''] 2,
                      sample_rule ''image-alt'' (Some ''critical'') [''cat.text-alternatives''] 1],
       passes = [sample_rule ''html-has-lang'' None [''cat.language''] 0],
       incomplete = [], inapplicable = [] \<rparr>"

definition passed_1_of_3_swapped :: axe_results where
  "passed_1_of_3_swapped =
     \<lparr> violations = [sample_rule ''image-alt'' (Some ''critical'') [''cat.text-alternatives''] 1,
                      sample_rule ''label'' (Some ''serious'') [''cat.forms''] 2],
       passes = [sample_rule ''html-has-lang'' None [''cat.language''] 0],
       incomplete = [], inapplicable = [] \<rparr>"

subsection \<open>Table rows used as examples\<close>

text \<open>Seven rows that share their fix instructions, and one row with other instructions.\<close>

definition alt_row :: "string \<Rightarrow> string" where
  \<open>alt_row sel =
     ''<td><pre><code>'' @ sel @ ''</code></pre><pre><code>&lt;img&gt;</code></pre></td><td>Add alt text</td>''\<close>

definition sample_rows :: "string list" where
  "sample_rows =
     [alt_row ''#a1'', alt_row ''#a2'', alt_row ''#a3'',
      ''<td><pre><code>#f</code></pre><pre><code>&lt;input&gt;</code></pre></td><td>Add a label</td>'',
      alt_row ''#a4'', alt_row ''#a5'', alt_row ''#a6'', alt_row ''#a7'']"

text \<open>
  Rows with the three columns of a violation table, the layout that
  \<^verbatim>\<open>createConsolidatedRow\<close> itself writes and the comment in
  \<^verbatim>\<open>groupSimilarViolations\<close> assumes: the number of the row, the element with its
  location and its source in two code blocks, and the fix instructions.
\<close>

definition element_cell :: "string \<Rightarrow> string \<Rightarrow> string" where
  \<open>element_cell sel markup =
     ''<p><strong>Element location</strong></p><pre><code class="css text-wrap">'' @ sel
     @ ''</code></pre><p><strong>Element source</strong></p><pre><code class="html text-wrap">'' @ markup
     @ ''</code></pre>''\<close>

definition report_row :: "string \<Rightarrow> string \<Rightarrow> string \<Rightarrow> string \<Rightarrow> string" where
  \<open>report_row n sel markup fixText =
     ''<td>'' @ n @ ''</td><td>'' @ element_cell sel markup @ ''</td><td>'' @ fixText @ ''</td>''\<close>

text \<open>Four rows for four elements that share their fix instructions.\<close>

definition same_fix_rows :: "string list" where
  "same_fix_rows =
     [report_row ''1'' ''#a1'' ''&lt;img id=a1&gt;'' ''<p>Add an alt attribute</p>'',
      report_row ''2'' ''#a2'' ''&lt;img id=a2&gt;'' ''<p>Add an alt attribute</p>'',
      report_row ''3'' ''#a3'' ''&lt;img id=a3&gt;'' ''<p>Add an alt attribute</p>'',
      report_row ''4'' ''#a4'' ''&lt;img id=a4&gt;'' ''<p>Add an alt attribute</p>'']"

text \<open>Four rows that show the same element; the second has other fix instructions.\<close>

definition same_element_rows :: "string list" where
  "same_element_rows =
     [report_row ''1'' ''img'' ''&lt;img&gt;'' ''<p>Add an alt attribute</p>'',
      report_row ''2'' ''img'' ''&lt;img&gt;'' ''<p>Add a title attribute</p>'',
      report_row ''3'' ''img'' ''&lt;img&gt;'' ''<p>Add an alt attribute</p>'',
      report_row ''4'' ''img'' ''&lt;img&gt;'' ''<p>Add an alt attribute</p>'']"

definition table_header :: string where
  "table_header = ''<th>#</th><th>Element</th><th>To solve this violation</th>''"

subsection \<open>Rule-engine results for the JUnit export\<close>

text \<open>One violation that affects two nodes.\<close>

definition two_nodes :: axe_results where
  "two_nodes =
     \<lparr> violations =
         [\<lparr> rule_id = ''image-alt'', description = ''Images must have alternate text'',
            help_text = ''Images must have alternate text'', helpUrl = ''https://a.example/alt'',
            impact = Some ''critical'', tags = [''cat.text-alternatives''],
            nodes = [\<lparr> target = [''img.a''], html = ''<img class=a>'' \<rparr>,
                     \<lparr> target = [''img.b''], html = ''<img class=b>'' \<rparr>] \<rparr>],
        passes = [], incomplete = [], inapplicable = [] \<rparr>"

text \<open>One violation whose description holds a double quote and markup.\<close>

definition markup_in_description :: axe_results where
  \<open>markup_in_description =
     \<lparr> violations =
         [\<lparr> rule_id = ''label'',
            description = ''x" time="0"></testcase><testcase classname="c" name="y'',
            help_text = ''Form elements must have labels'', helpUrl = ''https://a.example/label'',
            impact = Some ''serious'', tags = [''cat.forms''],
            nodes = [\<lparr> target = [''input''], html = ''<input>'' \<rparr>] \<rparr>],
        passes = [], incomplete = [], inapplicable = [] \<rparr>\<close>

section \<open>Properties of the export formatters\<close>

lemma occurrences_free:
  "p \<notin> set xs \<Longrightarrow> occurrences (p # ps) (xs @ ys) = occurrences (p # ps) ys"
  by (induction xs) auto

lemma occurrences_guard:
  "occurrences pat xs = 0 \<Longrightarrow> c \<notin> set pat
     \<Longrightarrow> occurrences pat (xs @ c # ys) = occurrences pat (c # ys)"
proof (induction xs)
  case Nil
  then show ?case by simp
next
  case (Cons x xs)
  from Cons.prems have np: "\<not> prefix pat (x # xs)" and z: "occurrences pat xs = 0"
    by (auto split: if_splits)
  have "\<not> prefix pat ((x # xs) @ c # ys)"
  proof
    assume "prefix pat ((x # xs) @ c # ys)"
    with np obtain us where us: "pat = (x # xs) @ us" "prefix us (c # ys)"
      unfolding prefix_append by blast
    show False
    proof (cases us)
      case Nil with us np show False by simp
    next
      case (Cons u us')
      with us have "u = c" by simp
      with us Cons Cons.prems(2) show False by simp
    qed
  qed
  with Cons.IH [OF z Cons.prems(2)] show ?case by simp
qed

lemma set_escape_char: "set (escape_char c rep s) \<subseteq> (set s - {c}) \<union> set rep"
  by (auto simp: escape_char_def split: if_splits)

lemma escapeXml_no_lt [simp]: "CHR ''<'' \<notin> set (escapeXml s)"
proof -
  have a: "CHR ''<'' \<notin> set (escape_char (CHR ''<'') ''&lt;'' t)" for t
    using set_escape_char [of "CHR ''<''" "''&lt;''" t] by auto
  have b: "CHR ''<'' \<notin> set t \<Longrightarrow> CHR ''<'' \<notin> set (escape_char c rep t)"
    if "CHR ''<'' \<notin> set rep" for t c rep
    using set_escape_char [of c rep t] that by auto
  show ?thesis unfolding escapeXml_def
    by (intro b a) simp_all
qed

lemma digit_char_no_lt [simp]: "digit_char k \<noteq> CHR ''<''"
proof -
  have "k mod 10 \<in> {0,1,2,3,4,5,6,7,8,9}" by (simp add: less_Suc_eq) presburger
  then show ?thesis unfolding digit_char_def by auto
qed

lemma show_nat_no_lt [simp]: "CHR ''<'' \<notin> set (show_nat n)"
proof (induction n rule: show_nat.induct)
  case (1 n)
  have "CHR ''<'' \<notin> set [digit_char n]" using digit_char_no_lt [of n] by (simp add: eq_commute)
  with 1 show ?case by (subst show_nat.simps) (simp del: digit_char_no_lt)
qed

lemma occ_failure_xml:
  assumes "CHR ''<'' \<notin> set (failure_type f)"
  shows "occurrences ''<testcase '' (failure_xml f @ rest) = occurrences ''<testcase '' rest"
    and "occurrences ''<failure '' (failure_xml f @ rest) = 1 + occurrences ''<failure '' rest"
  using assms by (simp_all add: failure_xml_def occurrences_free)

lemma occ_testcase_xml:
  assumes "occurrences ''<testcase '' (tc_name tc) = 0" "CHR ''<'' \<notin> set (classname tc)"
  shows "occurrences ''<testcase '' (testcase_xml tc @ rest)
           = 1 + occurrences ''<testcase ''
                   ((case failure tc of None \<Rightarrow> [] | Some f \<Rightarrow> failure_xml f)
                    @ ''\<newline>    </testcase>'' @ rest)"
  using assms by (simp add: testcase_xml_def occurrences_free occurrences_guard)

lemma occf_testcase_xml:
  assumes "occurrences ''<failure '' (tc_name tc) = 0" "CHR ''<'' \<notin> set (classname tc)"
  shows "occurrences ''<failure '' (testcase_xml tc @ rest)
           = occurrences ''<failure ''
               ((case failure tc of None \<Rightarrow> [] | Some f \<Rightarrow> failure_xml f)
                @ ''\<newline>    </testcase>'' @ rest)"
  using assms by (simp add: testcase_xml_def occurrences_free occurrences_guard)

lemma violation_testcase_fields:
  "tc_name (violation_testcase v) = rule_id v @ '' - '' @ description v"
  "CHR ''<'' \<notin> set (classname (violation_testcase v))"
  "failure (violation_testcase v) = Some
     \<lparr> message = impact_text (impact v) @ '' violation: '' @ description v,
       failure_type = ''AssertionError'',
       failure_text = ''Violation found on '' @ show_nat (length (nodes v))
                        @ '' element(s). Help: '' @ helpUrl v \<rparr>"
  by (simp_all add: violation_testcase_def)

lemma pass_testcase_fields:
  "tc_name (pass_testcase v) = rule_id v @ '' - '' @ description v"
  "CHR ''<'' \<notin> set (classname (pass_testcase v))"
  "failure (pass_testcase v) = None"
  by (simp_all add: pass_testcase_def)

lemma occ_violation_tc:
  assumes "occurrences ''<testcase '' (rule_id v @ '' - '' @ description v) = 0"
  shows "occurrences ''<testcase '' (testcase_xml (violation_testcase v) @ rest)
           = 1 + occurrences ''<testcase '' rest"
proof -
  have "occurrences ''<testcase '' (tc_name (violation_testcase v)) = 0"
    using assms by (simp only: violation_testcase_fields)
  then have "occurrences ''<testcase '' (testcase_xml (violation_testcase v) @ rest)
      = 1 + occurrences ''<testcase ''
              ((case failure (violation_testcase v) of None \<Rightarrow> [] | Some f \<Rightarrow> failure_xml f)
               @ ''\<newline>    </testcase>'' @ rest)"
    by (rule occ_testcase_xml) (rule violation_testcase_fields)
  also have "\<dots> = 1 + occurrences ''<testcase '' (''\<newline>    </testcase>'' @ rest)"
    by (simp only: violation_testcase_fields option.case)
       (simp add: occ_failure_xml del: append_Cons)
  finally show ?thesis by simp
qed

lemma occ_pass_tc:
  assumes "occurrences ''<testcase '' (rule_id v @ '' - '' @ description v) = 0"
  shows "occurrences ''<testcase '' (testcase_xml (pass_testcase v) @ rest)
           = 1 + occurrences ''<testcase '' rest"
proof -
  have "occurrences ''<testcase '' (tc_name (pass_testcase v)) = 0"
    using assms by (simp only: pass_testcase_fields)
  then have "occurrences ''<testcase '' (testcase_xml (pass_testcase v) @ rest)
      = 1 + occurrences ''<testcase ''
              ((case failure (pass_testcase v) of None \<Rightarrow> [] | Some f \<Rightarrow> failure_xml f)
               @ ''\<newline>    </testcase>'' @ rest)"
    by (rule occ_testcase_xml) (rule pass_testcase_fields)
  then show ?thesis by (simp add: pass_testcase_fields)
qed

lemma occf_violation_tc:
  assumes "occurrences ''<failure '' (rule_id v @ '' - '' @ description v) = 0"
  shows "occurrences ''<failure '' (testcase_xml (violation_testcase v) @ rest)
           = 1 + occurrences ''<failure '' rest"
proof -
  have "occurrences ''<failure '' (tc_name (violation_testcase v)) = 0"
    using assms by (simp only: violation_testcase_fields)
  then have "occurrences ''<failure '' (testcase_xml (violation_testcase v) @ rest)
      = occurrences ''<failure ''
          ((case failure (violation_testcase v) of None \<Rightarrow> [] | Some f \<Rightarrow> failure_xml f)
           @ ''\<newline>    </testcase>'' @ rest)"
    by (rule occf_testcase_xml) (rule violation_testcase_fields)
  also have "\<dots> = 1 + occurrences ''<failure '' (''\<newline>    </testcase>'' @ rest)"
    by (simp only: violation_testcase_fields option.case)
       (simp add: occ_failure_xml del: append_Cons)
  finally show ?thesis by simp
qed

lemma occf_pass_tc:
  assumes "occurrences ''<failure '' (rule_id v @ '' - '' @ description v) = 0"
  shows "occurrences ''<failure '' (testcase_xml (pass_testcase v) @ rest)
           = occurrences ''<failure '' rest"
proof -
  have "occurrences ''<failure '' (tc_name (pass_testcase v)) = 0"
    using assms by (simp only: pass_testcase_fields)
  then have "occurrences ''<failure '' (testcase_xml (pass_testcase v) @ rest)
      = occurrences ''<failure ''
          ((case failure (pass_testcase v) of None \<Rightarrow> [] | Some f \<Rightarrow> failure_xml f)
           @ ''\<newline>    </testcase>'' @ rest)"
    by (rule occf_testcase_xml) (rule pass_testcase_fields)
  then show ?thesis by (simp add: pass_testcase_fields)
qed

lemma occ_violation_cases:
  assumes "\<forall>v \<in> set vs. occurrences ''<testcase '' (rule_id v @ '' - '' @ description v) = 0
                        \<and> occurrences ''<failure '' (rule_id v @ '' - '' @ description v) = 0"
  shows "occurrences ''<testcase '' (concat (map testcase_xml (map violation_testcase vs)) @ rest)
           = length vs + occurrences ''<testcase '' rest"
    and "occurrences ''<failure '' (concat (map testcase_xml (map violation_testcase vs)) @ rest)
           = length vs + occurrences ''<failure '' rest"
  using assms by (induction vs) (simp_all add: occ_violation_tc occf_violation_tc)

lemma occ_pass_cases:
  assumes "\<forall>v \<in> set vs. occurrences ''<testcase '' (rule_id v @ '' - '' @ description v) = 0
                        \<and> occurrences ''<failure '' (rule_id v @ '' - '' @ description v) = 0"
  shows "occurrences ''<testcase '' (concat (map testcase_xml (map pass_testcase vs)) @ rest)
           = length vs + occurrences ''<testcase '' rest"
    and "occurrences ''<failure '' (concat (map testcase_xml (map pass_testcase vs)) @ rest)
           = occurrences ''<failure '' rest"
  using assms by (induction vs) (simp_all add: occ_pass_tc occf_pass_tc)

lemma junit_counts:
  assumes "\<forall>v \<in> set (violations r) \<union> set (passes r).
             occurrences ''<testcase '' (rule_id v @ '' - '' @ description v) = 0
             \<and> occurrences ''<failure '' (rule_id v @ '' - '' @ description v) = 0"
  shows "occurrences ''<testcase '' (generateJUnitReport r) = length (violations r) + length (passes r)"
    and "occurrences ''<failure '' (generateJUnitReport r) = length (violations r)"
proof -
  let ?tail = "''\<newline>  </testsuite>'' @ ''\<newline></testsuites>''"
  let ?cases = "concat (map testcase_xml (map violation_testcase (violations r)))
                 @ concat (map testcase_xml (map pass_testcase (passes r))) @ ?tail"
  from assms have v: "\<forall>v \<in> set (violations r).
             occurrences ''<testcase '' (rule_id v @ '' - '' @ description v) = 0
             \<and> occurrences ''<failure '' (rule_id v @ '' - '' @ description v) = 0"
    and p: "\<forall>v \<in> set (passes r).
             occurrences ''<testcase '' (rule_id v @ '' - '' @ description v) = 0
             \<and> occurrences ''<failure '' (rule_id v @ '' - '' @ description v) = 0"
    by simp_all
  have t: "occurrences ''<testcase '' ?tail = 0" "occurrences ''<failure '' ?tail = 0" by simp_all
  have c: "occurrences ''<testcase '' ?cases = length (violations r) + length (passes r)"
          "occurrences ''<failure '' ?cases = length (violations r)"
    using occ_violation_cases [OF v] occ_pass_cases [OF p] t
    by simp_all
  have h: "occurrences ''<testcase '' (generateJUnitReport r) = occurrences ''<testcase '' ?cases"
          "occurrences ''<failure '' (generateJUnitReport r) = occurrences ''<failure '' ?cases"
    by (simp_all add: generateJUnitReport_def junit_suite_def Let_def occurrences_free)
  from h c show "occurrences ''<testcase '' (generateJUnitReport r) = length (violations r) + length (passes r)"
    and "occurrences ''<failure '' (generateJUnitReport r) = length (violations r)" by simp_all
qed

lemma sublist_in_concat:
  assumes "y \<in> set ys" "sublist p (f y)"
  shows "sublist p (a @ concat (map f ys) @ b)"
proof -
  from assms(1) obtain ys1 ys2 where ys: "ys = ys1 @ y # ys2" by (auto dest: split_list)
  from assms(2) obtain u w where "f y = u @ p @ w" by (auto simp: sublist_def)
  then have "a @ concat (map f ys) @ b
      = (a @ concat (map f ys1) @ u) @ p @ (w @ concat (map f ys2) @ b)"
    by (simp add: ys)
  then show ?thesis unfolding sublist_def by blast
qed

lemma junit_text_split:
  \<open>generateJUnitReport r =
     (''<?xml version="1.0" encoding="UTF-8"?>''
      @ ''\<newline><testsuites name="Accessibility Tests" tests="'' @ show_nat (length (violations r) + length (passes r))
      @ ''" failures="'' @ show_nat (length (violations r)) @ ''" time="0">''
      @ ''\<newline>  <testsuite name="Accessibility Tests" tests="'' @ show_nat (length (violations r) + length (passes r))
      @ ''" failures="'' @ show_nat (length (violations r)) @ ''" time="0">''
      @ ''\<newline>    '')
     @ concat (map (\<lambda>v. testcase_xml (violation_testcase v)) (violations r))
     @ concat (map (\<lambda>v. testcase_xml (pass_testcase v)) (passes r))
     @ ''\<newline>  </testsuite>\<newline></testsuites>''\<close>
  by (simp add: generateJUnitReport_def junit_suite_def Let_def comp_def)

lemma junit_text_around:
  "\<exists>a b. generateJUnitReport r
     = a @ concat (map (\<lambda>v. testcase_xml (violation_testcase v)) (violations r)) @ b"
  "\<exists>a b. generateJUnitReport r
     = a @ concat (map (\<lambda>v. testcase_xml (pass_testcase v)) (passes r)) @ b"
proof -
  obtain h t where h: "generateJUnitReport r
     = h @ concat (map (\<lambda>v. testcase_xml (violation_testcase v)) (violations r))
         @ concat (map (\<lambda>v. testcase_xml (pass_testcase v)) (passes r)) @ t"
    using junit_text_split [of r] by (rule that)
  show "\<exists>a b. generateJUnitReport r
     = a @ concat (map (\<lambda>v. testcase_xml (violation_testcase v)) (violations r)) @ b"
    by (intro exI) (rule h)
  from h have "generateJUnitReport r
     = (h @ concat (map (\<lambda>v. testcase_xml (violation_testcase v)) (violations r)))
         @ concat (map (\<lambda>v. testcase_xml (pass_testcase v)) (passes r)) @ t"
    by (simp only: append_assoc)
  then show "\<exists>a b. generateJUnitReport r
     = a @ concat (map (\<lambda>v. testcase_xml (pass_testcase v)) (passes r)) @ b"
    by (intro exI)
qed

lemma violation_case_present:
  assumes \<open>v \<in> set (violations r)\<close>
  shows \<open>sublist (''<testcase classname="accessibility.violations" name="''
          @ rule_id v @ '' - '' @ description v @ ''" time="0">''
          @ ''\<newline>      <failure message="''
          @ escapeXml (impact_text (impact v) @ '' violation: '' @ description v)
          @ ''" type="AssertionError">''
          @ escapeXml (''Violation found on '' @ show_nat (length (nodes v))
                        @ '' element(s). Help: '' @ helpUrl v)
          @ ''</failure>''
          @ ''\<newline>    </testcase>'')
           (generateJUnitReport r)\<close>
proof -
  let ?p = \<open>''<testcase classname="accessibility.violations" name="''
          @ rule_id v @ '' - '' @ description v @ ''" time="0">''
          @ ''\<newline>      <failure message="''
          @ escapeXml (impact_text (impact v) @ '' violation: '' @ description v)
          @ ''" type="AssertionError">''
          @ escapeXml (''Violation found on '' @ show_nat (length (nodes v))
                        @ '' element(s). Help: '' @ helpUrl v)
          @ ''</failure>''
          @ ''\<newline>    </testcase>''\<close>
  have \<open>testcase_xml (violation_testcase v) = ''\<newline>    '' @ ?p @ []\<close>
    by (simp add: testcase_xml_def violation_testcase_def failure_xml_def)
  then have one: \<open>sublist ?p (testcase_xml (violation_testcase v))\<close>
    unfolding sublist_def by blast
  from junit_text_around(1) [of r] obtain a b where
    \<open>generateJUnitReport r
       = a @ concat (map (\<lambda>v. testcase_xml (violation_testcase v)) (violations r)) @ b\<close>
    by (elim exE)
  with sublist_in_concat [where f = \<open>\<lambda>v. testcase_xml (violation_testcase v)\<close>
                            and a = a and b = b, OF assms one]
  show ?thesis by (simp only:)
qed

lemma pass_case_present:
  assumes \<open>v \<in> set (passes r)\<close>
  shows \<open>sublist (''<testcase classname="accessibility.passes" name="''
          @ rule_id v @ '' - '' @ description v @ ''" time="0">''
          @ ''\<newline>      ''
          @ ''\<newline>    </testcase>'')
           (generateJUnitReport r)\<close>
proof -
  let ?p = \<open>''<testcase classname="accessibility.passes" name="''
          @ rule_id v @ '' - '' @ description v @ ''" time="0">''
          @ ''\<newline>      ''
          @ ''\<newline>    </testcase>''\<close>
  have \<open>testcase_xml (pass_testcase v) = ''\<newline>    '' @ ?p @ []\<close>
    by (simp add: testcase_xml_def pass_testcase_def)
  then have one: \<open>sublist ?p (testcase_xml (pass_testcase v))\<close>
    unfolding sublist_def by blast
  from junit_text_around(2) [of r] obtain a b where
    \<open>generateJUnitReport r
       = a @ concat (map (\<lambda>v. testcase_xml (pass_testcase v)) (passes r)) @ b\<close>
    by (elim exE)
  with sublist_in_concat [where f = \<open>\<lambda>v. testcase_xml (pass_testcase v)\<close>
                            and a = a and b = b, OF assms one]
  show ?thesis by (simp only:)
qed

lemma junit_header:
  \<open>prefix (''<?xml version="1.0" encoding="UTF-8"?>''
      @ ''\<newline><testsuites name="Accessibility Tests" tests="'' @ show_nat (length (violations r) + length (passes r))
      @ ''" failures="'' @ show_nat (length (violations r)) @ ''" time="0">''
      @ ''\<newline>  <testsuite name="Accessibility Tests" tests="'' @ show_nat (length (violations r) + length (passes r))
      @ ''" failures="'' @ show_nat (length (violations r)) @ ''" time="0">'')
    (generateJUnitReport r)\<close>
  by (simp add: generateJUnitReport_def junit_suite_def Let_def)

text \<open>
  The name of a test case is not escaped, unlike the message and the text of its failure,
  so a description can close the attribute and open an element: the report of a result with
  one violation then has two opening tags of a test case under \<^verbatim>\<open>tests="1"\<close>.
\<close>

lemma junit_name_is_not_escaped:
  \<open>length (violations markup_in_description) = 1
   \<and> occurrences ''<testcase '' (generateJUnitReport markup_in_description) = 2
   \<and> prefix
       (''<?xml version="1.0" encoding="UTF-8"?>''
        @ ''\<newline><testsuites name="Accessibility Tests" tests="1" failures="1" time="0">'')
       (generateJUnitReport markup_in_description)\<close>
  by code_simp

lemma plain_text_occurrences:
  assumes "escapeXml s = s"
  shows "occurrences (CHR ''<'' # ps) s = 0"
proof -
  have "CHR ''<'' \<notin> set (escapeXml s)" by (rule escapeXml_no_lt)
  then have "CHR ''<'' \<notin> set s" unfolding assms .
  from occurrences_free [OF this, of ps "[]"] show ?thesis by simp
qed

text \<open>
  C3, as the code has it. The test cases of the text that \<^verbatim>\<open>generateJUnitReport\<close>
  returns are counted by their opening tags, and so are the failures. The name of a test
  case, the id and the description of its rule, is written into the text without escaping;
  the statement concerns the results whose names need no escaping, those that
  \<^verbatim>\<open>escapeXml\<close> leaves as they are. For these the text has one test case per
  violation and per passed rule, and one failure per violation (per rule, whatever the
  number of its nodes, which only the text of the failure mentions); the \<^verbatim>\<open>tests\<close> and
  \<^verbatim>\<open>failures\<close> attributes of both suite elements print these two numbers; every
  violation has its failed test case in the text and every passed rule its test case
  without a failure.
\<close>

theorem junit_cases_and_totals:
  assumes \<open>\<forall>v \<in> set (violations r) \<union> set (passes r).
             escapeXml (rule_id v @ '' - '' @ description v) = rule_id v @ '' - '' @ description v\<close>
  shows \<open>occurrences ''<testcase '' (generateJUnitReport r) = length (violations r) + length (passes r)
     \<and> occurrences ''<failure '' (generateJUnitReport r) = length (violations r)
     \<and> prefix
         (''<?xml version="1.0" encoding="UTF-8"?>''
          @ ''\<newline><testsuites name="Accessibility Tests" tests="'' @ show_nat (occurrences ''<testcase '' (generateJUnitReport r))
          @ ''" failures="'' @ show_nat (occurrences ''<failure '' (generateJUnitReport r)) @ ''" time="0">''
          @ ''\<newline>  <testsuite name="Accessibility Tests" tests="'' @ show_nat (occurrences ''<testcase '' (generateJUnitReport r))
          @ ''" failures="'' @ show_nat (occurrences ''<failure '' (generateJUnitReport r)) @ ''" time="0">'')
         (generateJUnitReport r)
     \<and> (\<forall>v \<in> set (violations r).
          sublist
           (''<testcase classname="accessibility.violations" name="''
            @ rule_id v @ '' - '' @ description v @ ''" time="0">''
            @ ''\<newline>      <failure message="''
            @ escapeXml (impact_text (impact v) @ '' violation: '' @ description v)
            @ ''" type="AssertionError">''
            @ escapeXml (''Violation found on '' @ show_nat (length (nodes v))
                          @ '' element(s). Help: '' @ helpUrl v)
            @ ''</failure>''
            @ ''\<newline>    </testcase>'')
           (generateJUnitReport r))
     \<and> (\<forall>v \<in> set (passes r).
          sublist
           (''<testcase classname="accessibility.passes" name="''
            @ rule_id v @ '' - '' @ description v @ ''" time="0">''
            @ ''\<newline>      ''
            @ ''\<newline>    </testcase>'')
           (generateJUnitReport r))\<close>
proof -
  have \<open>\<forall>v \<in> set (violations r) \<union> set (passes r).
             occurrences ''<testcase '' (rule_id v @ '' - '' @ description v) = 0
             \<and> occurrences ''<failure '' (rule_id v @ '' - '' @ description v) = 0\<close>
  proof (intro ballI conjI)
    fix v assume "v \<in> set (violations r) \<union> set (passes r)"
    with assms have e: "escapeXml (rule_id v @ '' - '' @ description v)
                          = rule_id v @ '' - '' @ description v"
      by (rule bspec)
    show "occurrences ''<testcase '' (rule_id v @ '' - '' @ description v) = 0"
      by (rule plain_text_occurrences [OF e])
    show "occurrences ''<failure '' (rule_id v @ '' - '' @ description v) = 0"
      by (rule plain_text_occurrences [OF e])
  qed
  note n = junit_counts [OF this]
  have h: \<open>prefix
         (''<?xml version="1.0" encoding="UTF-8"?>''
          @ ''\<newline><testsuites name="Accessibility Tests" tests="'' @ show_nat (occurrences ''<testcase '' (generateJUnitReport r))
          @ ''" failures="'' @ show_nat (occurrences ''<failure '' (generateJUnitReport r)) @ ''" time="0">''
          @ ''\<newline>  <testsuite name="Accessibility Tests" tests="'' @ show_nat (occurrences ''<testcase '' (generateJUnitReport r))
          @ ''" failures="'' @ show_nat (occurrences ''<failure '' (generateJUnitReport r)) @ ''" time="0">'')
         (generateJUnitReport r)\<close>
    unfolding n by (rule junit_header)
  from n h violation_case_present [of _ r] pass_case_present [of _ r] show ?thesis
    by (intro conjI ballI)
qed

text \<open>
  A result with two violations, one of them on two nodes, and one passed rule: three test
  cases, two of them failed.
\<close>

theorem junit_cases_and_totals_witness:
  \<open>list_all (\<lambda>v. escapeXml (rule_id v @ '' - '' @ description v)
                    = rule_id v @ '' - '' @ description v)
     (violations passed_1_of_3 @ passes passed_1_of_3)
   \<and> occurrences ''<testcase '' (generateJUnitReport passed_1_of_3) = 3
   \<and> occurrences ''<failure '' (generateJUnitReport passed_1_of_3) = 2
   \<and> prefix
       (''<?xml version="1.0" encoding="UTF-8"?>''
        @ ''\<newline><testsuites name="Accessibility Tests" tests="3" failures="2" time="0">''
        @ ''\<newline>  <testsuite name="Accessibility Tests" tests="3" failures="2" time="0">'')
       (generateJUnitReport passed_1_of_3)\<close>
proof -
  have names: \<open>list_all (\<lambda>v. escapeXml (rule_id v @ '' - '' @ description v)
                    = rule_id v @ '' - '' @ description v)
     (violations passed_1_of_3 @ passes passed_1_of_3)\<close>
    by code_simp
  then have hyp: \<open>\<forall>v \<in> set (violations passed_1_of_3) \<union> set (passes passed_1_of_3).
             escapeXml (rule_id v @ '' - '' @ description v) = rule_id v @ '' - '' @ description v\<close>
    by (simp only: list_all_iff set_append)
  have len: "length (violations passed_1_of_3) = 2" "length (passes passed_1_of_3) = 1"
    by (simp_all add: passed_1_of_3_def)
  have digits: "show_nat 3 = ''3''" "show_nat 2 = ''2''"
    by (simp_all add: show_nat.simps digit_char_def)
  note t = junit_cases_and_totals [OF hyp]
  from t have a: "occurrences ''<testcase '' (generateJUnitReport passed_1_of_3) = 3"
    and b: "occurrences ''<failure '' (generateJUnitReport passed_1_of_3) = 2"
    by (simp_all add: len)
  from t have \<open>prefix
         (''<?xml version="1.0" encoding="UTF-8"?>''
          @ ''\<newline><testsuites name="Accessibility Tests" tests="'' @ show_nat (occurrences ''<testcase '' (generateJUnitReport passed_1_of_3))
          @ ''" failures="'' @ show_nat (occurrences ''<failure '' (generateJUnitReport passed_1_of_3)) @ ''" time="0">''
          @ ''\<newline>  <testsuite name="Accessibility Tests" tests="'' @ show_nat (occurrences ''<testcase '' (generateJUnitReport passed_1_of_3))
          @ ''" failures="'' @ show_nat (occurrences ''<failure '' (generateJUnitReport passed_1_of_3)) @ ''" time="0">'')
         (generateJUnitReport passed_1_of_3)\<close>
    by (elim conjE)
  then have c: \<open>prefix
       (''<?xml version="1.0" encoding="UTF-8"?>''
        @ ''\<newline><testsuites name="Accessibility Tests" tests="3" failures="2" time="0">''
        @ ''\<newline>  <testsuite name="Accessibility Tests" tests="3" failures="2" time="0">'')
       (generateJUnitReport passed_1_of_3)\<close>
    unfolding a b digits by simp
  from names a b c show ?thesis by (intro conjI)
qed

text \<open>
  C3 as stated fails: a result whose only violation affects two nodes has two
  violation-node pairs, and its report has one test case, with one failure, under
  \<^verbatim>\<open>tests="1"\<close>.
\<close>

theorem junit_one_case_per_pair_counterexample:
  \<open>length (violation_node_pairs two_nodes) = 2
   \<and> occurrences ''<testcase '' (generateJUnitReport two_nodes) = 1
   \<and> occurrences ''<failure '' (generateJUnitReport two_nodes) = 1
   \<and> prefix
       (''<?xml version="1.0" encoding="UTF-8"?>''
        @ ''\<newline><testsuites name="Accessibility Tests" tests="1" failures="1" time="0">'')
       (generateJUnitReport two_nodes)\<close>
  by code_simp

lemma get_property_unknown:
  "s \<notin> set (map fst impact_mapping) \<Longrightarrow> s \<notin> set object_prototype_names
     \<Longrightarrow> get_property impact_mapping s = JUndefined"
  by (simp add: get_property_def impact_mapping_def)

text \<open>
  C10. \<^verbatim>\<open>mapImpactToLevel\<close> is a total function (it has no statement that can
  throw). It maps critical and serious to error, moderate to warning, minor to note, and
  everything else to warning: an absent impact, and every other string. The last part is
  stated for the strings that do not name a member of \<^verbatim>\<open>Object.prototype\<close>, which
  the lookup \<^verbatim>\<open>mapping[impact]\<close> would find in the prototype of the object literal;
  no impact of the rule engine is such a name, and the function is called with the impact
  of a violation only. So every result entry of the SARIF report of a rule-engine result
  carries one of the levels error, warning and note.
\<close>

theorem mapImpactToLevel_levels:
  "mapImpactToLevel (Some ''critical'') = JString ''error''
   \<and> mapImpactToLevel (Some ''serious'') = JString ''error''
   \<and> mapImpactToLevel (Some ''moderate'') = JString ''warning''
   \<and> mapImpactToLevel (Some ''minor'') = JString ''note''
   \<and> mapImpactToLevel None = JString ''warning''
   \<and> (\<forall>s. s \<notin> set (map fst impact_mapping) \<and> s \<notin> set object_prototype_names
          \<longrightarrow> mapImpactToLevel (Some s) = JString ''warning'')
   \<and> (\<forall>r. (\<forall>v \<in> set (violations r). impact v \<in> set rule_engine_impacts)
          \<longrightarrow> length (sarif_results r) = length (violation_node_pairs r)
              \<and> (\<forall>e \<in> set (sarif_results r).
                    level e \<in> {JString ''error'', JString ''warning'', JString ''note''}))"
proof -
  have known: "mapImpactToLevel (Some ''critical'') = JString ''error''"
    "mapImpactToLevel (Some ''serious'') = JString ''error''"
    "mapImpactToLevel (Some ''moderate'') = JString ''warning''"
    "mapImpactToLevel (Some ''minor'') = JString ''note''"
    "mapImpactToLevel None = JString ''warning''"
    by (simp_all add: mapImpactToLevel_def get_property_def impact_mapping_def impact_text_def
          object_prototype_names_def)
  have other: "mapImpactToLevel (Some s) = JString ''warning''"
    if "s \<notin> set (map fst impact_mapping) \<and> s \<notin> set object_prototype_names" for s
    using get_property_unknown [of s] that by (simp add: mapImpactToLevel_def impact_text_def)
  have engine: "mapImpactToLevel i \<in> {JString ''error'', JString ''warning'', JString ''note''}"
    if "i \<in> set rule_engine_impacts" for i
    using that known by (auto simp: rule_engine_impacts_def)
  have sarif: "length (sarif_results r) = length (violation_node_pairs r)
       \<and> (\<forall>e \<in> set (sarif_results r).
             level e \<in> {JString ''error'', JString ''warning'', JString ''note''})"
    if "\<forall>v \<in> set (violations r). impact v \<in> set rule_engine_impacts" for r
  proof
    show "length (sarif_results r) = length (violation_node_pairs r)"
      by (simp add: sarif_results_def violation_node_pairs_def length_concat comp_def)
    show "\<forall>e \<in> set (sarif_results r).
             level e \<in> {JString ''error'', JString ''warning'', JString ''note''}"
    proof
      fix e assume "e \<in> set (sarif_results r)"
      then obtain v where v: "v \<in> set (violations r)" and "level e = mapImpactToLevel (impact v)"
        by (auto simp: sarif_results_def)
      with engine [of "impact v"] that show
        "level e \<in> {JString ''error'', JString ''warning'', JString ''note''}"
        by simp
    qed
  qed
  have c6: "\<forall>s. s \<notin> set (map fst impact_mapping) \<and> s \<notin> set object_prototype_names
          \<longrightarrow> mapImpactToLevel (Some s) = JString ''warning''"
    by (intro allI impI) (rule other)
  have c7: "\<forall>r. (\<forall>v \<in> set (violations r). impact v \<in> set rule_engine_impacts)
          \<longrightarrow> length (sarif_results r) = length (violation_node_pairs r)
              \<and> (\<forall>e \<in> set (sarif_results r).
                    level e \<in> {JString ''error'', JString ''warning'', JString ''note''})"
    by (intro allI impI) (rule sarif)
  from known c6 c7 show ?thesis by (intro conjI)
qed

text \<open>
  The impact info is none of the four known impacts and is mapped to warning; the three
  result entries of a result with a serious violation on two nodes and a critical one on
  one node carry the level error.
\<close>

theorem mapImpactToLevel_levels_witness:
  "''info'' \<notin> set (map fst impact_mapping) \<and> ''info'' \<notin> set object_prototype_names
   \<and> mapImpactToLevel (Some ''info'') = JString ''warning''
   \<and> list_all (\<lambda>v. impact v \<in> set rule_engine_impacts) (violations passed_1_of_3)
   \<and> length (sarif_results passed_1_of_3) = 3
   \<and> list_all (\<lambda>e. level e \<in> {JString ''error'', JString ''warning'', JString ''note''})
        (sarif_results passed_1_of_3)
   \<and> map level (sarif_results passed_1_of_3) = [JString ''error'', JString ''error'', JString ''error'']"
proof -
  have a: "''info'' \<notin> set (map fst impact_mapping) \<and> ''info'' \<notin> set object_prototype_names"
    by (simp add: impact_mapping_def object_prototype_names_def)
  have b: "list_all (\<lambda>v. impact v \<in> set rule_engine_impacts) (violations passed_1_of_3)"
    by (simp add: passed_1_of_3_def sample_rule_def rule_engine_impacts_def)
  then have b': "\<forall>v \<in> set (violations passed_1_of_3). impact v \<in> set rule_engine_impacts"
    by (simp only: list_all_iff)
  have pairs: "length (violation_node_pairs passed_1_of_3) = 3"
    by (simp add: violation_node_pairs_def passed_1_of_3_def sample_rule_def)
  have levels: "map level (sarif_results passed_1_of_3)
                  = [JString ''error'', JString ''error'', JString ''error'']"
    by code_simp
  note t = mapImpactToLevel_levels
  from t have "\<forall>s. s \<notin> set (map fst impact_mapping) \<and> s \<notin> set object_prototype_names
          \<longrightarrow> mapImpactToLevel (Some s) = JString ''warning''"
    by (elim conjE)
  then have "''info'' \<notin> set (map fst impact_mapping) \<and> ''info'' \<notin> set object_prototype_names
          \<longrightarrow> mapImpactToLevel (Some ''info'') = JString ''warning''"
    by (rule spec)
  from this a have c: "mapImpactToLevel (Some ''info'') = JString ''warning''"
    by (rule mp)
  from t have "\<forall>r. (\<forall>v \<in> set (violations r). impact v \<in> set rule_engine_impacts)
          \<longrightarrow> length (sarif_results r) = length (violation_node_pairs r)
              \<and> (\<forall>e \<in> set (sarif_results r).
                    level e \<in> {JString ''error'', JString ''warning'', JString ''note''})"
    by (elim conjE)
  then have "(\<forall>v \<in> set (violations passed_1_of_3). impact v \<in> set rule_engine_impacts)
          \<longrightarrow> length (sarif_results passed_1_of_3) = length (violation_node_pairs passed_1_of_3)
              \<and> (\<forall>e \<in> set (sarif_results passed_1_of_3).
                    level e \<in> {JString ''error'', JString ''warning'', JString ''note''})"
    by (rule spec)
  from this b' have "length (sarif_results passed_1_of_3) = length (violation_node_pairs passed_1_of_3)
              \<and> (\<forall>e \<in> set (sarif_results passed_1_of_3).
                    level e \<in> {JString ''error'', JString ''warning'', JString ''note''})"
    by (rule mp)
  then have de: "length (sarif_results passed_1_of_3) = 3
      \<and> list_all (\<lambda>e. level e \<in> {JString ''error'', JString ''warning'', JString ''note''})
        (sarif_results passed_1_of_3)"
    by (simp add: pairs list_all_iff)
  note d = de [THEN conjunct1] and e = de [THEN conjunct2]
  from a have a1: "''info'' \<notin> set (map fst impact_mapping)"
    and a2: "''info'' \<notin> set object_prototype_names" by simp_all
  from a1 a2 c b d e levels show ?thesis by (intro conjI)
qed

section \<open>Properties of batch runs\<close>

lemma testing_state_fields [simp]:
  "totalUrls (testing_state u bp) = totalUrls bp"
  "completedUrls (testing_state u bp) = completedUrls bp"
  "failedUrls (testing_state u bp) = failedUrls bp"
  "results (testing_state u bp) = results bp"
  by (simp_all add: testing_state_def)

lemma after_url_fields [simp]:
  "totalUrls (after_url audit i u bp) = totalUrls bp"
  "completedUrls (after_url audit i u bp) = Suc (completedUrls bp)"
  "failedUrls (after_url audit i u bp) = failedUrls bp + (if isl (audit i u) then 1 else 0)"
  by (simp_all add: after_url_def Let_def split: sum.splits)

lemma after_url_results [simp]:
  "results (after_url audit i u bp) = results bp @ [outcome_of audit i u]"
  by (simp add: after_url_def outcome_of_def Let_def split: sum.splits)

lemma outcome_of_url [simp]: "br_url (outcome_of audit i u) = u"
  by (simp add: outcome_of_def summary_of_def failedResult_def split: sum.splits)

lemma outcome_of_status:
  "br_status (outcome_of audit i u) = (if isl (audit i u) then ''failed'' else ''completed'')"
  by (simp add: outcome_of_def summary_of_def failedResult_def split: sum.splits)

lemma progress_le_refl [simp]: "progress_le a a"
  by (simp add: progress_le_def)

lemma progress_le_trans: "progress_le a b \<Longrightarrow> progress_le b c \<Longrightarrow> progress_le a c"
  by (auto simp: progress_le_def)

lemma progress_le_testing [simp]: "progress_le bp (testing_state u bp)" "progress_le (testing_state u bp) x = progress_le bp x"
  by (simp_all add: progress_le_def)

lemma progress_le_after [simp]: "progress_le bp (after_url audit i u bp)"
  by (simp add: progress_le_def)

lemma batch_loop_above: "s \<in> set (batch_loop audit i us bp) \<Longrightarrow> progress_le bp s"
proof (induction us arbitrary: i bp)
  case Nil
  then show ?case by simp
next
  case (Cons u us)
  then show ?case
    by (auto intro: progress_le_trans [OF progress_le_after])
qed

lemma batch_loop_sorted: "sorted_wrt progress_le (batch_loop audit i us bp)"
proof (induction us arbitrary: i bp)
  case Nil
  then show ?case by simp
next
  case (Cons u us)
  then show ?case
    by (auto dest: batch_loop_above intro: progress_le_trans [OF progress_le_after])
qed

lemma batch_loop_inv:
  "run_inv urls bp \<Longrightarrow> drop (completedUrls bp) urls = us \<Longrightarrow> s \<in> set (batch_loop audit i us bp) \<Longrightarrow> run_inv urls s"
proof (induction us arbitrary: i bp)
  case Nil
  then show ?case by simp
next
  case (Cons u us)
  have t: "run_inv urls (testing_state u bp)" using Cons.prems(1) by (simp add: run_inv_def)
  have lt: "completedUrls bp < length urls" using Cons.prems(2)
    by (metis drop_all list.distinct(1) not_le)
  have u: "urls ! completedUrls bp = u" using Cons.prems(2) lt
    by (metis Cons_nth_drop_Suc list.inject)
  have d: "drop (Suc (completedUrls bp)) urls = us" using Cons.prems(2) lt
    by (metis Cons_nth_drop_Suc list.inject)
  have a: "run_inv urls (after_url audit i u bp)" using Cons.prems(1) lt u
    by (auto simp: run_inv_def take_Suc_conv_app_nth outcome_of_status)
  from Cons.prems(3) t a Cons.IH [OF a] d show ?case by auto
qed

lemma loop_end_Nil [simp]: "loop_end audit i [] bp = bp"
  by (simp add: loop_end_def)

lemma loop_end_Cons [simp]:
  "loop_end audit i (u # us) bp = loop_end audit (Suc i) us (after_url audit i u bp)"
  by (simp add: loop_end_def)

lemma loop_end_completed: "completedUrls (loop_end audit i us bp) = completedUrls bp + length us"
  by (induction us arbitrary: i bp) auto

lemma loop_end_failed:
  "failedUrls (loop_end audit i us bp)
     = failedUrls bp + length (filter (\<lambda>k. isl (audit (i + k) (us ! k))) [0..<length us])"
proof (induction us arbitrary: i bp)
  case Nil
  then show ?case by simp
next
  case (Cons u us)
  have "filter (\<lambda>k. isl (audit (i + k) ((u # us) ! k))) [0..<length (u # us)]
      = filter (\<lambda>k. isl (audit (i + k) ((u # us) ! k))) (0 # map Suc [0..<length us])"
    by (simp add: upt_conv_Cons map_Suc_upt del: upt_Suc)
  then have "length (filter (\<lambda>k. isl (audit (i + k) ((u # us) ! k))) [0..<length (u # us)])
      = (if isl (audit i u) then 1 else 0)
        + length (filter (\<lambda>k. isl (audit (Suc i + k) (us ! k))) [0..<length us])"
    by (simp add: filter_map comp_def)
  with Cons.IH [of "Suc i" "after_url audit i u bp"] show ?case by simp
qed

lemma batch_states_last:
  "last (batch_states None audit urls) = loop_end audit 0 urls (initial_progress urls)"
  by (simp add: batch_states_def loop_end_def)

lemma run_inv_initial [simp]: "run_inv urls (initial_progress urls)"
  by (simp add: run_inv_def initial_progress_def)

lemma batch_states_inv: "s \<in> set (batch_states launch audit urls) \<Longrightarrow> run_inv urls s"
proof (cases launch)
  case None
  assume "s \<in> set (batch_states launch audit urls)"
  with None have "s = initial_progress urls \<or> s \<in> set (batch_loop audit 0 urls (initial_progress urls))"
    by (simp add: batch_states_def)
  then show ?thesis
  proof
    assume "s = initial_progress urls" then show ?thesis by simp
  next
    assume "s \<in> set (batch_loop audit 0 urls (initial_progress urls))"
    then show ?thesis
      by (rule batch_loop_inv [rotated 2]) (simp_all, simp add: initial_progress_def)
  qed
next
  case (Some msg)
  assume "s \<in> set (batch_states launch audit urls)"
  with Some show ?thesis
    by (auto simp: batch_states_def run_inv_def initial_progress_def)
qed

lemma run_inv_finalize [simp]: "run_inv urls (finalize s) = run_inv urls s"
  by (simp add: run_inv_def finalize_def)

lemma batch_states_nonempty [simp]: "batch_states launch audit urls \<noteq> []"
  by (simp add: batch_states_def)

lemma batch_trace_inv: "s \<in> set (batch_trace launch audit urls) \<Longrightarrow> run_inv urls s"
proof -
  assume "s \<in> set (batch_trace launch audit urls)"
  then have "s \<in> set (batch_states launch audit urls)
      \<or> s = finalize (last (batch_states launch audit urls))"
    by (auto simp: batch_trace_def)
  moreover have "run_inv urls (last (batch_states launch audit urls))"
    by (rule batch_states_inv [of _ launch audit]) simp
  ultimately show ?thesis by (auto dest: batch_states_inv)
qed

lemma progress_le_finalize [simp]: "progress_le a (finalize b) = progress_le a b"
  by (simp add: progress_le_def finalize_def)

lemma batch_states_sorted: "sorted_wrt progress_le (batch_states launch audit urls)"
proof (cases launch)
  case None
  then show ?thesis
    by (auto simp: batch_states_def batch_loop_sorted dest: batch_loop_above)
next
  case (Some msg)
  then show ?thesis by (simp add: batch_states_def progress_le_def)
qed

lemma sorted_wrt_below_last:
  assumes "sorted_wrt P xs" "x \<in> set xs" "\<And>a. P a a"
  shows "P x (last xs)"
  using assms
proof (induction xs)
  case Nil
  then show ?case by simp
next
  case (Cons a xs)
  then show ?case by (cases "xs = []") auto
qed

lemma batch_trace_sorted: "sorted_wrt progress_le (batch_trace launch audit urls)"
  unfolding batch_trace_def
  by (auto simp: sorted_wrt_append batch_states_sorted
      intro: sorted_wrt_below_last [OF batch_states_sorted])

lemma last_batch_trace [simp]: "last (batch_trace launch audit urls) = batch_final launch audit urls"
  by (simp add: batch_trace_def batch_final_def)

lemma batch_test_Some: "batch_test launch audit urls = Some tr \<longleftrightarrow> urls \<noteq> [] \<and> tr = batch_trace launch audit urls"
  by (auto simp: batch_test_def)

lemma batch_final_fields [simp]:
  "totalUrls (batch_final launch audit urls) = length urls"
  "completedUrls (batch_final None audit urls) = length urls"
  "failedUrls (batch_final None audit urls) = length (failing_positions audit urls)"
    apply (simp_all add: batch_final_def finalize_def batch_states_last loop_end_completed
      loop_end_failed failing_positions_def)
    apply (simp_all add: initial_progress_def)
  using batch_states_inv [of "last (batch_states launch audit urls)" launch audit urls]
  apply (simp add: run_inv_def)
  done

lemma batch_final_results: "map br_url (results (batch_final None audit urls)) = urls"
proof -
  have "run_inv urls (batch_final None audit urls)"
    by (rule batch_trace_inv [of _ None audit]) (simp add: batch_trace_def batch_final_def)
  then show ?thesis by (simp add: run_inv_def)
qed

lemma final_status_eq:
  "status (batch_final launch audit urls) =
     (if failedUrls (batch_final launch audit urls) = totalUrls (batch_final launch audit urls)
      then ''failed'' else ''completed'')"
  by (simp add: batch_final_def finalize_def)

lemma all_failing_conv:
  "length (failing_positions audit urls) = length urls \<longleftrightarrow> (\<forall>i<length urls. isl (audit i (urls ! i)))"
proof -
  let ?P = "\<lambda>i. isl (audit i (urls ! i))"
  have "length (filter ?P [0..<length urls]) + length (filter (\<lambda>i. \<not> ?P i) [0..<length urls])
      = length urls"
    using sum_length_filter_compl [of ?P "[0..<length urls]"] by simp
  then have "length (filter ?P [0..<length urls]) = length urls
      \<longleftrightarrow> filter (\<lambda>i. \<not> ?P i) [0..<length urls] = []"
    by auto
  then show ?thesis by (auto simp: failing_positions_def filter_empty_conv)
qed

text \<open>
  C1, as the code has it. The \<^verbatim>\<open>finally\<close> block knows two final states: the status
  is failed when the failed count equals the number of URLs, that is when every audit threw,
  and completed otherwise, also when some but not all audits threw. The endpoint has no
  \<^verbatim>\<open>continueOnFailure\<close> option and never stops early: once the browser has started,
  every URL gets an outcome, in input order. In particular a run of three URLs of which
  exactly one throws ends completed with a completed count of 3 and a failed count of 1.
\<close>

theorem batch_final_status:
  assumes "batch_test launch audit urls = Some tr"
  shows "status (last tr) =
           (if failedUrls (last tr) = totalUrls (last tr) then ''failed'' else ''completed'')
    \<and> totalUrls (last tr) = length urls
    \<and> (launch = None \<longrightarrow>
         completedUrls (last tr) = length urls
       \<and> failedUrls (last tr) = length (failing_positions audit urls)
       \<and> map br_url (results (last tr)) = urls
       \<and> (status (last tr) = ''failed'' \<longleftrightarrow> (\<forall>i<length urls. isl (audit i (urls ! i))))
       \<and> (status (last tr) = ''completed'' \<longleftrightarrow> (\<exists>i<length urls. \<not> isl (audit i (urls ! i))))
       \<and> (length urls = 3 \<and> length (failing_positions audit urls) = 1 \<longrightarrow>
            status (last tr) = ''completed'' \<and> completedUrls (last tr) = 3
            \<and> failedUrls (last tr) = 1))"
proof -
  from assms have tr: "last tr = batch_final launch audit urls"
    by (simp add: batch_test_Some)
  show ?thesis
  proof (cases launch)
    case None
    show ?thesis
      unfolding tr None
      using all_failing_conv [of audit urls]
      by (auto simp: final_status_eq batch_final_results)
  next
    case (Some msg)
    then show ?thesis unfolding tr by (simp add: final_status_eq)
  qed
qed

text \<open>
  C6. In every state the progress record of a batch run passes through, the failed count
  is at most the completed count, which is at most the number of URLs; the outcomes
  recorded so far are those of an initial segment of the input URLs, in input order; and from
  any state to any later one neither counter decreases and the earlier outcomes remain, as a
  prefix of the later ones.
\<close>

theorem batch_progress_invariants:
  assumes "batch_test launch audit urls = Some tr"
  shows "(\<forall>s \<in> set tr. failedUrls s \<le> completedUrls s \<and> completedUrls s \<le> totalUrls s
            \<and> totalUrls s = length urls
            \<and> map br_url (results s) = take (length (results s)) urls)
    \<and> (\<forall>i j. i \<le> j \<and> j < length tr \<longrightarrow>
            completedUrls (tr ! i) \<le> completedUrls (tr ! j)
          \<and> failedUrls (tr ! i) \<le> failedUrls (tr ! j)
          \<and> prefix (results (tr ! i)) (results (tr ! j)))"
proof -
  from assms have tr: "tr = batch_trace launch audit urls"
    by (simp add: batch_test_Some)
  have inv: "run_inv urls s" if "s \<in> set tr" for s
    using that batch_trace_inv unfolding tr by blast
  have mono: "progress_le (tr ! i) (tr ! j)" if "i \<le> j" "j < length tr" for i j
  proof (cases "i = j")
    case True
    then show ?thesis by simp
  next
    case False
    with that have "i < j" by simp
    with that(2) batch_trace_sorted [of launch audit urls] show ?thesis
      unfolding tr by (simp add: sorted_wrt_iff_nth_less)
  qed
  have a: "failedUrls s \<le> completedUrls s \<and> completedUrls s \<le> totalUrls s
      \<and> totalUrls s = length urls
      \<and> map br_url (results s) = take (length (results s)) urls" if "s \<in> set tr" for s
    using inv [OF that] by (simp add: run_inv_def)
  have b: "completedUrls (tr ! i) \<le> completedUrls (tr ! j)
      \<and> failedUrls (tr ! i) \<le> failedUrls (tr ! j)
      \<and> prefix (results (tr ! i)) (results (tr ! j))" if "i \<le> j \<and> j < length tr" for i j
    using mono [of i j] that by (simp add: progress_le_def)
  from a b show ?thesis by blast
qed

lemma ci_outcome_url [simp]: "cr_url (ci_outcome opts audit i url) = url"
  by (simp add: ci_outcome_def tested_result_def thrown_result_def Let_def split: sum.splits)

lemma ci_new_Cons:
  assumes "ci_new opts audit (Suc i) urls new" "r = ci_outcome opts audit i url"
    "continueOnFailure opts \<or> cr_success r"
  shows "ci_new opts audit i (url # urls) (r # new)"
  unfolding ci_new_def
proof (intro conjI allI impI)
  show "length (r # new) \<le> length (url # urls)" using assms(1) by (simp add: ci_new_def)
next
  fix k assume "k < length (r # new)"
  then show "(r # new) ! k = ci_outcome opts audit (i + k) ((url # urls) ! k)"
    using assms(1,2) by (cases k) (simp_all add: ci_new_def)
next
  fix k assume "\<not> continueOnFailure opts" "k < length (r # new)" "\<not> cr_success ((r # new) ! k)"
  then show "Suc k = length (r # new)"
    using assms(1,3) by (cases k) (simp_all add: ci_new_def)
next
  assume "continueOnFailure opts"
  then show "length (r # new) = length (url # urls)" using assms(1) by (simp add: ci_new_def)
qed

lemma ci_new_single:
  assumes "r = ci_outcome opts audit i url" "\<not> continueOnFailure opts"
  shows "ci_new opts audit i (url # urls) [r]"
  using assms by (simp add: ci_new_def)

lemma ci_loop_results:
  "ci_loop opts audit i urls (rs, ok) = (rs', ok')
     \<Longrightarrow> \<exists>new. rs' = rs @ new \<and> ci_new opts audit i urls new"
proof (induction urls arbitrary: i rs ok)
  case Nil
  then show ?case by (simp add: ci_new_def)
next
  case (Cons url urls)
  let ?r = "ci_outcome opts audit i url"
  show ?case
  proof (cases "continueOnFailure opts \<or> cr_success ?r")
    case True
    then obtain ok1 where "ci_loop opts audit (Suc i) urls (rs @ [?r], ok1) = (rs', ok')"
      using Cons.prems
      by (auto simp: ci_outcome_def Let_def thrown_result_def split: sum.splits if_splits)
    from Cons.IH [OF this] obtain new where
      new: "rs' = (rs @ [?r]) @ new" "ci_new opts audit (Suc i) urls new" by blast
    from new(2) True have "ci_new opts audit i (url # urls) (?r # new)"
      by (intro ci_new_Cons) simp_all
    with new(1) show ?thesis by auto
  next
    case False
    then have "rs' = rs @ [?r]"
      using Cons.prems
      by (auto simp: ci_outcome_def Let_def thrown_result_def split: sum.splits if_splits)
    moreover from False have "ci_new opts audit i (url # urls) [?r]"
      by (intro ci_new_single) simp_all
    ultimately show ?thesis by blast
  qed
qed

text \<open>
  C5. In a run of \<^verbatim>\<open>/api/ci/test-urls\<close> with \<^verbatim>\<open>continueOnFailure\<close> false, if the
  outcome of URL \<open>k\<close> is a failure (its audit threw, or its violations exceed the allowed
  number) then it is the last outcome: the outcomes are exactly those of the first \<open>k + 1\<close>
  URLs, none exists for a later URL, and \<^verbatim>\<open>summary.totalUrls\<close> is still the length of the
  request.
\<close>

theorem ci_stops_at_first_failure:
  assumes "ci_test_urls opts session audit urls = Report code rep"
    and "\<not> continueOnFailure opts"
    and "k < length (ci_results rep)"
    and "\<not> cr_success (ci_results rep ! k)"
  shows "length (ci_results rep) = Suc k
    \<and> map cr_url (ci_results rep) = take (Suc k) urls
    \<and> ci_results rep ! k = ci_outcome opts audit k (urls ! k)
    \<and> ci_testedUrls rep = Suc k
    \<and> ci_totalUrls rep = length urls"
proof -
  from assms(1) obtain ok where
    loop: "ci_loop opts audit 0 urls ([], True) = (ci_results rep, ok)"
    and tot: "ci_totalUrls rep = length urls" and tested: "ci_testedUrls rep = length (ci_results rep)"
    by (auto simp: ci_test_urls_def split: if_splits option.splits prod.splits)
  from ci_loop_results [OF loop] have new: "ci_new opts audit 0 urls (ci_results rep)"
    by simp
  with assms(2-4) have len: "length (ci_results rep) = Suc k"
    by (simp add: ci_new_def)
  from new have le: "length (ci_results rep) \<le> length urls"
    and nth: "\<And>j. j < length (ci_results rep) \<Longrightarrow> ci_results rep ! j = ci_outcome opts audit j (urls ! j)"
    by (simp_all add: ci_new_def)
  have "map cr_url (ci_results rep) = take (length (ci_results rep)) urls"
    using le nth by (auto simp: list_eq_iff_nth_eq)
  with len tot tested nth [of k] assms(3) show ?thesis by simp
qed

lemma scenario_failing: "failing_positions scenario_audit scenario_urls = [1]"
  by code_simp

lemma scen_len: "length scenario_urls = 3" by (simp add: scenario_urls_def)

text \<open>
  The three-URL run whose second audit times out satisfies the hypothesis of C1's theorem.
\<close>

theorem batch_final_status_witness:
  "\<exists>tr. batch_test None scenario_audit scenario_urls = Some tr
     \<and> status (last tr) = ''completed'' \<and> completedUrls (last tr) = 3
     \<and> failedUrls (last tr) = 1 \<and> map br_url (results (last tr)) = scenario_urls"
proof -
  have h: "batch_test None scenario_audit scenario_urls
             = Some (batch_trace None scenario_audit scenario_urls)"
    by (simp add: batch_test_def scenario_urls_def)
  have "length scenario_urls = 3" "length (failing_positions scenario_audit scenario_urls) = 1"
    by (simp_all add: scenario_failing scen_len)
  with batch_final_status [OF h] h show ?thesis by simp
qed

text \<open>
  C1 as stated fails: in the three-URL run whose second audit times out, one URL of three
  failed, and the final status is completed, not partiallyFailed.
\<close>

theorem batch_partially_failed_counterexample:
  "totalUrls (batch_final None scenario_audit scenario_urls) = 3
   \<and> failedUrls (batch_final None scenario_audit scenario_urls) = 1
   \<and> status (batch_final None scenario_audit scenario_urls) = ''completed''
   \<and> status (batch_final None scenario_audit scenario_urls) \<noteq> ''partiallyFailed''"
  by code_simp

lemma scenario_trace_length: "length (batch_trace None scenario_audit scenario_urls) = 8"
  by (simp add: batch_trace_def batch_states_def scenario_urls_def)

text \<open>
  The states of the same run, taken at positions 2 and 4, satisfy the hypotheses of C6's theorem.
\<close>

theorem batch_progress_invariants_witness:
  "\<exists>tr. batch_test None scenario_audit scenario_urls = Some tr
     \<and> tr ! 4 \<in> set tr
     \<and> failedUrls (tr ! 4) \<le> completedUrls (tr ! 4) \<and> completedUrls (tr ! 4) \<le> totalUrls (tr ! 4)
     \<and> map br_url (results (tr ! 4)) = take (length (results (tr ! 4))) scenario_urls
     \<and> (2::nat) \<le> 4 \<and> 4 < length tr
     \<and> completedUrls (tr ! 2) \<le> completedUrls (tr ! 4)
     \<and> failedUrls (tr ! 2) \<le> failedUrls (tr ! 4)
     \<and> prefix (results (tr ! 2)) (results (tr ! 4))"
proof -
  let ?tr = "batch_trace None scenario_audit scenario_urls"
  have h: "batch_test None scenario_audit scenario_urls = Some ?tr"
    by (simp add: batch_test_def scenario_urls_def)
  have m: "?tr ! 4 \<in> set ?tr" and l: "(2::nat) \<le> 4 \<and> 4 < length ?tr"
    by (simp_all add: scenario_trace_length)
  from batch_progress_invariants [OF h] m l h show ?thesis by blast
qed

text \<open>
  The same three URLs through the CI endpoint: the second outcome is a failure and the
  third URL has no outcome.
\<close>

theorem ci_stops_at_first_failure_witness:
  "\<exists>code rep. ci_test_urls strict_options None scenario_audit scenario_urls = Report code rep
     \<and> \<not> continueOnFailure strict_options
     \<and> 1 < length (ci_results rep) \<and> \<not> cr_success (ci_results rep ! 1)
     \<and> length (ci_results rep) = 2 \<and> ci_testedUrls rep = 2 \<and> ci_totalUrls rep = 3
     \<and> map cr_url (ci_results rep) = take 2 scenario_urls"
proof -
  define rep where "rep =
    \<lparr> ci_success = False, ci_totalUrls = 3, ci_testedUrls = 2, ci_passedUrls = 1,
      ci_failedUrls = 1,
      ci_results = [tested_result strict_options ''https://a.example/'' no_findings,
                    thrown_result ''https://b.example/'' ''Timeout 30000ms exceeded''] \<rparr>"
  define code :: nat where "code = 422"
  have h: "ci_test_urls strict_options None scenario_audit scenario_urls = Report code rep"
    unfolding rep_def code_def by code_simp
  have rs: "ci_results rep = [tested_result strict_options ''https://a.example/'' no_findings,
                              thrown_result ''https://b.example/'' ''Timeout 30000ms exceeded'']"
    by (simp add: rep_def)
  have c: "\<not> continueOnFailure strict_options" by (simp add: strict_options_def)
  have k: "1 < length (ci_results rep)" "\<not> cr_success (ci_results rep ! 1)"
    by (simp_all add: rs thrown_result_def)
  from ci_stops_at_first_failure [OF h c k] h c k show ?thesis
    by (auto simp: numeral_2_eq_2 scen_len)
qed

section \<open>Properties of the executive summary\<close>

lemma round_half_even_error: "\<bar>of_int (round_half_even x) - x\<bar> \<le> 1 / 2"
proof -
  have "of_int \<lfloor>x\<rfloor> \<le> x" "x < of_int \<lfloor>x\<rfloor> + 1" by linarith+
  then show ?thesis
    by (auto simp: round_half_even_def Let_def abs_le_iff)
qed

lemma binary_exponent_lower:
  assumes "0 < q"
  shows "2 powi (binary_exponent q) \<le> q"
proof -
  obtain a b where ab: "quotient_of q = (a, b)" by (cases "quotient_of q")
  then have b: "0 < b" and q: "q = of_int a / of_int b"
    by (simp_all add: quotient_of_denom_pos quotient_of_div)
  with assms have a: "0 < a" by (simp add: zero_less_divide_iff)
  let ?d = "bitlen a - bitlen b"
  show ?thesis
  proof (cases "2 powi ?d \<le> q")
    case True
    then show ?thesis by (simp add: binary_exponent_def ab)
  next
    case False
    have la: "2 ^ nat (bitlen a - 1) \<le> a" and lb: "b < 2 ^ nat (bitlen b)"
      using bitlen_bounds [OF a] bitlen_bounds [OF b] by simp_all
    have pa: "0 < bitlen a" using a bitlen_eq_zero_iff [of a] bitlen_nonneg [of a] by linarith
    have "(2::rat) powi (?d - 1) = 2 powi (bitlen a - 1) / 2 powi (bitlen b)"
      by (simp add: power_int_diff) 
    also have "\<dots> = 2 ^ nat (bitlen a - 1) / 2 ^ nat (bitlen b)"
      using pa bitlen_nonneg [of b] by (simp add: power_int_def)
    also have "\<dots> \<le> of_int a / of_int b"
    proof (rule frac_le)
      show "(2::rat) ^ nat (bitlen a - 1) \<le> of_int a"
        using la by (metis of_int_le_iff of_int_numeral of_int_power)
      show "of_int b \<le> (2::rat) ^ nat (bitlen b)"
        using lb by (metis less_imp_le of_int_le_iff of_int_numeral of_int_power)
    qed (use a b in simp_all)
    finally have "(2::rat) powi (?d - 1) \<le> q" by (simp add: q)
    moreover have "binary_exponent q = ?d - 1"
      using False by (simp add: binary_exponent_def ab)
    ultimately show ?thesis by simp
  qed
qed

lemma round_to_double_error:
  assumes "0 < q"
  shows "\<bar>round_to_double q - q\<bar> \<le> q / 2 ^ 53"
proof -
  define ulp :: rat where "ulp = 2 powi (binary_exponent q - 52)"
  have ulp: "0 < ulp" by (simp add: ulp_def)
  have r: "round_to_double q = of_int (round_half_even (q / ulp)) * ulp"
    using assms by (simp add: round_to_double_def ulp_def Let_def)
  have "\<bar>of_int (round_half_even (q / ulp)) * ulp - q\<bar>
      = \<bar>of_int (round_half_even (q / ulp)) - q / ulp\<bar> * ulp"
  proof -
    have "of_int (round_half_even (q / ulp)) * ulp - q
        = (of_int (round_half_even (q / ulp)) - q / ulp) * ulp"
      using ulp by (simp add: left_diff_distrib)
    then show ?thesis using ulp by (simp add: abs_mult)
  qed
  also have "\<dots> \<le> 1 / 2 * ulp"
    using round_half_even_error [of "q / ulp"] ulp by (intro mult_right_mono) simp_all
  also have "\<dots> = 2 powi (binary_exponent q) / 2 ^ 53"
    unfolding ulp_def by (simp add: power_int_diff)
  also have "\<dots> \<le> q / 2 ^ 53"
    using binary_exponent_lower [OF assms] by (simp add: divide_right_mono)
  finally show ?thesis by (simp add: r)
qed

lemma round_to_double_pos:
  assumes "0 < q"
  shows "0 < round_to_double q"
proof -
  have "q / 2 ^ 53 < q" using assms by (simp add: divide_less_eq)
  with round_to_double_error [OF assms] show ?thesis by linarith
qed

lemma percentage_error:
  assumes "0 < p" "p \<le> t"
  shows "\<bar>js_times (js_divide p t) 100 - 100 * of_nat p / of_nat t\<bar> \<le> 201 / 2 ^ 53"
proof -
  define q :: rat where "q = of_nat p / of_nat t"
  define u :: rat where "u = 1 / 2 ^ 53"
  define x1 where "x1 = round_to_double q"
  define x2 where "x2 = round_to_double (x1 * 100)"
  have q: "0 < q" "q \<le> 1" using assms by (simp_all add: q_def)
  have u: "0 < u" "100 * u \<le> 1" by (simp_all add: u_def)
  have e1: "\<bar>x1 - q\<bar> \<le> q * u"
    using round_to_double_error [OF q(1)] by (simp add: x1_def u_def)
  have x1: "0 < x1" using round_to_double_pos [OF q(1)] by (simp add: x1_def)
  have e2: "\<bar>x2 - x1 * 100\<bar> \<le> x1 * 100 * u"
    using round_to_double_error [of "x1 * 100"] x1 by (simp add: x2_def u_def)
  have qu: "q * u \<le> u" using q u by (simp add: mult_left_le_one_le)
  have x1u: "x1 \<le> 1 + u" using e1 q qu by (simp add: abs_le_iff)
  have "x1 * 100 * u \<le> (1 + u) * 100 * u"
    using x1u u by (intro mult_right_mono) simp_all
  also have "\<dots> = 100 * u + (100 * u) * u" by (simp add: algebra_simps)
  also have "\<dots> \<le> 100 * u + 1 * u" using u by (intro add_left_mono mult_right_mono) simp_all
  finally have b2: "x1 * 100 * u \<le> 101 * u" by simp
  have "\<bar>x1 - q\<bar> \<le> u" using e1 qu by linarith
  moreover have "\<bar>x2 - x1 * 100\<bar> \<le> 101 * u" using e2 b2 by linarith
  ultimately have "\<bar>x2 - 100 * q\<bar> \<le> 201 * u" by linarith
  then show ?thesis
    by (simp add: x2_def x1_def js_times_def js_divide_def q_def u_def)
qed

lemma floor_stable:
  fixes x w :: rat
  assumes w: "w = of_int n / of_int m" and m: "0 < m" and e: "\<bar>x - w\<bar> < 1 / of_int m"
    and ni: "w \<noteq> of_int \<lfloor>w\<rfloor>"
  shows "\<lfloor>x\<rfloor> = \<lfloor>w\<rfloor>"
proof -
  define k where "k = \<lfloor>w\<rfloor>"
  have k: "of_int k \<le> w" "w < of_int k + 1" unfolding k_def by linarith+
  with ni have lt: "of_int k < w" unfolding k_def by linarith
  have wm: "w * of_int m = of_int n" using m by (simp add: w)
  have "(w - of_int k) * of_int m = of_int (n - k * m)"
    by (simp add: left_diff_distrib wm)
  moreover have "0 < (w - of_int k) * of_int m" using lt m by simp
  ultimately have "(0::rat) < of_int (n - k * m)" by simp
  then have "1 \<le> n - k * m" by linarith
  then have "(1::rat) \<le> of_int (n - k * m)" by (metis of_int_1_le_iff)
  then have "1 \<le> (w - of_int k) * of_int m"
    by (simp add: left_diff_distrib wm)
  then have lo: "1 / of_int m \<le> w - of_int k"
    using m by (simp add: pos_divide_le_eq)
  have "(of_int k + 1 - w) * of_int m = of_int ((k + 1) * m - n)"
    by (simp add: left_diff_distrib wm algebra_simps)
  moreover have "0 < (of_int k + 1 - w) * of_int m" using k m by simp
  ultimately have "(0::rat) < of_int ((k + 1) * m - n)" by simp
  then have "1 \<le> (k + 1) * m - n" by linarith
  then have "(1::rat) \<le> of_int ((k + 1) * m - n)" by (metis of_int_1_le_iff)
  then have "1 \<le> (of_int k + 1 - w) * of_int m"
    by (simp add: left_diff_distrib wm algebra_simps)
  then have hi: "1 / of_int m \<le> of_int k + 1 - w"
    using m by (simp add: pos_divide_le_eq)
  from e lo hi have "of_int k \<le> x" "x < of_int k + 1"
    by (simp_all add: abs_less_iff)
  then have "\<lfloor>x\<rfloor> = k" by (simp add: floor_unique)
  then show ?thesis by (simp add: k_def)
qed

lemma half_integer_iff:
  fixes v :: rat
  shows "v + 1 / 2 = of_int \<lfloor>v + 1 / 2\<rfloor> \<longleftrightarrow> frac v = 1 / 2"
proof
  assume a: "v + 1 / 2 = of_int \<lfloor>v + 1 / 2\<rfloor>"
  define k where "k = \<lfloor>v + 1 / 2\<rfloor>"
  from a have v: "v = of_int (k - 1) + 1 / 2" by (simp add: k_def)
  then have "\<lfloor>v\<rfloor> = k - 1" by (intro floor_unique) simp_all
  with v show "frac v = 1 / 2" by (simp add: frac_def)
next
  assume "frac v = 1 / 2"
  then have "v = of_int \<lfloor>v\<rfloor> + 1 / 2" by (simp add: frac_def algebra_simps)
  then have "v + 1 / 2 = of_int (\<lfloor>v\<rfloor> + 1)" by simp
  then show "v + 1 / 2 = of_int \<lfloor>v + 1 / 2\<rfloor>" by (metis floor_of_int)
qed

lemma tiny_error:
  assumes "0 < t" "t < 2 ^ 34"
  shows "(201::rat) / 2 ^ 53 < 1 / of_int (2 * int t)"
proof -
  from assms(2) have "(of_nat t :: rat) < 2 ^ 34"
    by (simp only: of_nat_less_numeral_power_cancel_iff)
  then have "(of_int (2 * int t) :: rat) < 2 ^ 35" by simp
  moreover have "(0::rat) < of_int (2 * int t)" using assms(1) by simp
  ultimately have "(1::rat) / 2 ^ 35 < 1 / of_int (2 * int t)"
    by (simp add: frac_less2)
  moreover have "(201::rat) / 2 ^ 53 < 1 / 2 ^ 35" by simp
  ultimately show ?thesis by linarith
qed

lemma percent_shift:
  assumes "0 < t"
  shows "percent p t + 1 / 2 = of_int (200 * int p + int t) / of_int (2 * int t)"
  using assms by (simp add: percent_def field_simps)

lemma score_zero_passes: "Math_round (js_times (js_divide 0 t) 100) = 0"
proof -
  have "\<lfloor>(1::rat) / 2\<rfloor> = 0" by (intro floor_unique) simp_all
  then show ?thesis
    by (simp add: Math_round_def js_times_def js_divide_def round_to_double_def)
qed

lemma score_exact:
  assumes t: "0 < t" "t < 2 ^ 34" and p: "p \<le> t" and nh: "frac (percent p t) \<noteq> 1 / 2"
  shows "Math_round (js_times (js_divide p t) 100) = round (percent p t)"
proof (cases "p = 0")
  case True
  then show ?thesis by (simp add: score_zero_passes percent_def)
next
  case False
  then have p0: "0 < p" by simp
  let ?x = "js_times (js_divide p t) 100"
  have "\<bar>?x - percent p t\<bar> < 1 / of_int (2 * int t)"
    using percentage_error [OF p0 p] tiny_error [OF t] by (simp add: percent_def)
  then have e: "\<bar>(?x + 1 / 2) - (percent p t + 1 / 2)\<bar> < 1 / of_int (2 * int t)" by simp
  have ni: "percent p t + 1 / 2 \<noteq> of_int \<lfloor>percent p t + 1 / 2\<rfloor>"
    using nh by (simp add: half_integer_iff)
  have "\<lfloor>?x + 1 / 2\<rfloor> = \<lfloor>percent p t + 1 / 2\<rfloor>"
    by (rule floor_stable [OF percent_shift [OF t(1)] _ e ni]) (use t in simp)
  then show ?thesis by (simp add: Math_round_def round_def)
qed

lemma score_near:
  assumes t: "0 < t" "t < 2 ^ 34" and p: "p \<le> t"
  shows "round (percent p t) - 1 \<le> Math_round (js_times (js_divide p t) 100)
       \<and> Math_round (js_times (js_divide p t) 100) \<le> round (percent p t)"
proof (cases "frac (percent p t) = 1 / 2")
  case False
  with score_exact [OF t p] show ?thesis by simp
next
  case True
  show ?thesis
  proof (cases "p = 0")
    case True
    then show ?thesis by (simp add: score_zero_passes percent_def)
  next
    case False
    then have p0: "0 < p" by simp
    let ?x = "js_times (js_divide p t) 100"
    define k where "k = \<lfloor>percent p t + 1 / 2\<rfloor>"
    have w: "percent p t + 1 / 2 = of_int k"
      using True half_integer_iff [of "percent p t"] unfolding k_def by blast
    have "\<bar>?x - percent p t\<bar> \<le> 201 / 2 ^ 53"
      using percentage_error [OF p0 p] by (simp add: percent_def)
    moreover have "(201::rat) / 2 ^ 53 < 1" by simp
    ultimately have "\<bar>?x - percent p t\<bar> < 1" by linarith
    with w have "of_int k - 1 \<le> ?x + 1 / 2" "?x + 1 / 2 < of_int k + 1"
      by linarith+
    then have "k - 1 \<le> \<lfloor>?x + 1 / 2\<rfloor>" "\<lfloor>?x + 1 / 2\<rfloor> \<le> k"
      using le_floor_iff [of "k - 1" "?x + 1 / 2"] floor_less_iff [of "?x + 1 / 2" "k + 1"]
      by simp_all
    then show ?thesis by (simp add: Math_round_def round_def k_def)
  qed
qed

lemma css_totalRules:
  "totalRules (calculateSummaryStats r) =
     length (violations r) + length (passes r) + length (incomplete r) + length (inapplicable r)"
  by (simp add: calculateSummaryStats_def Let_def)

lemma css_score:
  "score (calculateSummaryStats r) =
     (if totalRules (calculateSummaryStats r) > 0
      then Math_round (js_times (js_divide (length (passes r)) (totalRules (calculateSummaryStats r))) 100)
      else 100)"
  by (simp add: calculateSummaryStats_def Let_def)

lemma css_grade: "grade (calculateSummaryStats r) = grade_of (score (calculateSummaryStats r))"
  by (simp add: calculateSummaryStats_def Let_def)

text \<open>
  C7, as the code has it. The number of rules evaluated is the sum of the four array
  lengths. The score is \<^verbatim>\<open>Math.round((passes / total) * 100)\<close> in double precision:
  for fewer than \<open>2\<^sup>3\<^sup>4\<close> rules it is the exact percentage \<open>100 * passes / total\<close>
  rounded to the nearest integer whenever that percentage is not exactly halfway between
  two integers, and otherwise it is that rounding (upwards) or one below it. The grade is
  Excellent from 95, Good from 85, Fair from 70 and Needs Improvement below. Score and grade
  are the same for any reordering of the four arrays.
\<close>

theorem executive_score_and_grade:
  "totalRules (calculateSummaryStats r) =
     length (violations r) + length (passes r) + length (incomplete r) + length (inapplicable r)
   \<and> (0 < totalRules (calculateSummaryStats r) \<and> totalRules (calculateSummaryStats r) < 2 ^ 34
        \<and> frac (percent (length (passes r)) (totalRules (calculateSummaryStats r))) \<noteq> 1 / 2
      \<longrightarrow> score (calculateSummaryStats r)
            = round (percent (length (passes r)) (totalRules (calculateSummaryStats r))))
   \<and> (0 < totalRules (calculateSummaryStats r) \<and> totalRules (calculateSummaryStats r) < 2 ^ 34
      \<longrightarrow> round (percent (length (passes r)) (totalRules (calculateSummaryStats r))) - 1
            \<le> score (calculateSummaryStats r)
        \<and> score (calculateSummaryStats r)
            \<le> round (percent (length (passes r)) (totalRules (calculateSummaryStats r))))
   \<and> grade (calculateSummaryStats r) =
        (if score (calculateSummaryStats r) \<ge> 95 then ''Excellent''
         else if score (calculateSummaryStats r) \<ge> 85 then ''Good''
         else if score (calculateSummaryStats r) \<ge> 70 then ''Fair''
         else ''Needs Improvement'')
   \<and> (\<forall>r'. mset (violations r') = mset (violations r) \<and> mset (passes r') = mset (passes r)
          \<and> mset (incomplete r') = mset (incomplete r)
          \<and> mset (inapplicable r') = mset (inapplicable r)
        \<longrightarrow> score (calculateSummaryStats r') = score (calculateSummaryStats r)
          \<and> grade (calculateSummaryStats r') = grade (calculateSummaryStats r))"
proof -
  let ?t = "totalRules (calculateSummaryStats r)"
  let ?p = "length (passes r)"
  have le: "?p \<le> ?t" by (simp add: css_totalRules)
  have exact: "score (calculateSummaryStats r) = round (percent ?p ?t)"
    if "0 < ?t \<and> ?t < 2 ^ 34 \<and> frac (percent ?p ?t) \<noteq> 1 / 2"
  proof -
    from that have a: "0 < ?t" "?t < 2 ^ 34" "frac (percent ?p ?t) \<noteq> 1 / 2"
      by (rule conjunct1, rule conjunct2 [THEN conjunct1], rule conjunct2 [THEN conjunct2])
    have "score (calculateSummaryStats r) = Math_round (js_times (js_divide ?p ?t) 100)"
      using a(1) by (subst css_score) (simp only: if_True)
    with score_exact [OF a(1,2) le a(3)] show ?thesis by (simp only:)
  qed
  have near: "round (percent ?p ?t) - 1 \<le> score (calculateSummaryStats r)
      \<and> score (calculateSummaryStats r) \<le> round (percent ?p ?t)"
    if "0 < ?t \<and> ?t < 2 ^ 34"
  proof -
    from that have a: "0 < ?t" "?t < 2 ^ 34"
      by (rule conjunct1, rule conjunct2)
    have "score (calculateSummaryStats r) = Math_round (js_times (js_divide ?p ?t) 100)"
      using a(1) by (subst css_score) (simp only: if_True)
    with score_near [OF a le] show ?thesis by (simp only:)
  qed
  have gr: "grade (calculateSummaryStats r) =
        (if score (calculateSummaryStats r) \<ge> 95 then ''Excellent''
         else if score (calculateSummaryStats r) \<ge> 85 then ''Good''
         else if score (calculateSummaryStats r) \<ge> 70 then ''Fair''
         else ''Needs Improvement'')"
    by (simp only: css_grade grade_of_def)
  have perm: "score (calculateSummaryStats r') = score (calculateSummaryStats r)
          \<and> grade (calculateSummaryStats r') = grade (calculateSummaryStats r)"
    if "mset (violations r') = mset (violations r) \<and> mset (passes r') = mset (passes r)
          \<and> mset (incomplete r') = mset (incomplete r)
          \<and> mset (inapplicable r') = mset (inapplicable r)" for r'
  proof -
    from that have "length (violations r') = length (violations r)"
      "length (passes r') = length (passes r)" "length (incomplete r') = length (incomplete r)"
      "length (inapplicable r') = length (inapplicable r)"
      by (metis size_mset)+
    then show ?thesis by (simp add: css_score css_grade css_totalRules)
  qed
  have c1: "?t = length (violations r) + length (passes r) + length (incomplete r)
      + length (inapplicable r)"
    by (rule css_totalRules)
  show ?thesis
    apply (rule conjI [OF c1])
    apply (rule conjI [OF impI [OF exact]], assumption)
    apply (rule conjI [OF impI [OF near]], assumption)
    apply (rule conjI [OF gr])
    apply (rule allI, rule impI, erule perm)
    done
qed

lemma count_severity_zero:
  "count_severity \<lparr> critical = 0, serious = 0, moderate = 0, minor = 0 \<rparr> v
     = \<lparr> critical = 0, serious = 0, moderate = 0, minor = 0 \<rparr>"
  by (simp add: count_severity_def severity_get_def Let_def)

lemma severity_counts_stay_zero:
  "severityCounts (calculateSummaryStats r)
     = \<lparr> critical = 0, serious = 0, moderate = 0, minor = 0 \<rparr>"
proof -
  have "foldl count_severity \<lparr> critical = 0, serious = 0, moderate = 0, minor = 0 \<rparr> vs
      = \<lparr> critical = 0, serious = 0, moderate = 0, minor = 0 \<rparr>" for vs
    by (induction vs) (simp_all add: count_severity_zero)
  then show ?thesis by (simp add: calculateSummaryStats_def Let_def)
qed

text \<open>
  C2 at a result with one critical violation on one node and nothing else: the count
  of critical nodes is 1, the critical count the summary computes is 0, and the only
  recommendation is the positive one. (By \<open>severity_counts_stay_zero\<close> the four severity
  counts are 0 for every result: a count of 0 is falsy, so no count is ever increased.)
\<close>

theorem critical_violation_gets_no_urgent_line:
  "impact_node_count ''critical'' one_critical = 1
   \<and> critical (severityCounts (calculateSummaryStats one_critical)) = 0
   \<and> recommendations (calculateSummaryStats one_critical)
       = [''Great job! Continue monitoring for accessibility regressions'']"
  by code_simp

text \<open>
  C7 as stated fails: with 23 passed rules among 40 the exact percentage is 57.5, which
  rounds to 58, while the double-precision product \<^verbatim>\<open>(23 / 40) * 100\<close> lies just below
  57.5 and the score is 57.
\<close>

theorem executive_score_counterexample:
  "length (passes passed_23_of_40) = 23
   \<and> totalRules (calculateSummaryStats passed_23_of_40) = 40
   \<and> score (calculateSummaryStats passed_23_of_40) = 57
   \<and> round (100 * 23 / 40 :: rat) = 58"
  by code_simp

lemma p13_facts:
  "length (passes passed_1_of_3) = 1" "totalRules (calculateSummaryStats passed_1_of_3) = 3"
  by (simp_all add: css_totalRules passed_1_of_3_def)

text \<open>
  A result with one passed rule among three satisfies the hypotheses of C7's theorem: the
  score is 33, and swapping its two violations leaves the score as it is.
\<close>

theorem executive_score_and_grade_witness:
  "0 < totalRules (calculateSummaryStats passed_1_of_3)
   \<and> totalRules (calculateSummaryStats passed_1_of_3) < 2 ^ 34
   \<and> frac (percent (length (passes passed_1_of_3))
              (totalRules (calculateSummaryStats passed_1_of_3))) \<noteq> 1 / 2
   \<and> score (calculateSummaryStats passed_1_of_3) = 33
   \<and> grade (calculateSummaryStats passed_1_of_3) = ''Needs Improvement''
   \<and> mset (violations passed_1_of_3_swapped) = mset (violations passed_1_of_3)
   \<and> violations passed_1_of_3_swapped \<noteq> violations passed_1_of_3
   \<and> score (calculateSummaryStats passed_1_of_3_swapped)
       = score (calculateSummaryStats passed_1_of_3)"
proof -
  have h: "0 < totalRules (calculateSummaryStats passed_1_of_3)
      \<and> totalRules (calculateSummaryStats passed_1_of_3) < 2 ^ 34
      \<and> frac (percent (length (passes passed_1_of_3))
              (totalRules (calculateSummaryStats passed_1_of_3))) \<noteq> 1 / 2"
  proof -
    have "percent 1 3 - 1 / 3 = of_int 33" by (simp add: percent_def)
    then have "percent 1 3 - 1 / 3 \<in> \<int>" by (simp only: Ints_of_int)
    then have "frac (percent 1 3) = 1 / 3"
      by (intro frac_unique_iff [THEN iffD2]) simp
    then show ?thesis unfolding p13_facts by simp
  qed
  have r: "round (percent 1 3) = 33"
    by (simp add: percent_def round_def) (rule floor_unique, simp_all)
  have m: "mset (violations passed_1_of_3_swapped) = mset (violations passed_1_of_3)
      \<and> mset (passes passed_1_of_3_swapped) = mset (passes passed_1_of_3)
      \<and> mset (incomplete passed_1_of_3_swapped) = mset (incomplete passed_1_of_3)
      \<and> mset (inapplicable passed_1_of_3_swapped) = mset (inapplicable passed_1_of_3)"
    by (simp add: passed_1_of_3_def passed_1_of_3_swapped_def)
  have d: "violations passed_1_of_3_swapped \<noteq> violations passed_1_of_3"
    by (simp add: passed_1_of_3_def passed_1_of_3_swapped_def sample_rule_def)
  note t = executive_score_and_grade [of passed_1_of_3]
  from t h have "score (calculateSummaryStats passed_1_of_3)
      = round (percent (length (passes passed_1_of_3))
              (totalRules (calculateSummaryStats passed_1_of_3)))" by blast
  then have s: "score (calculateSummaryStats passed_1_of_3) = 33"
    unfolding p13_facts by (simp only: r)
  with t have g: "grade (calculateSummaryStats passed_1_of_3) = ''Needs Improvement''" by simp
  from t m have "score (calculateSummaryStats passed_1_of_3_swapped)
       = score (calculateSummaryStats passed_1_of_3)" by blast
  with h s g m d show ?thesis by blast
qed

text \<open>
  C9. When the four arrays are empty, so that no rule was evaluated, the quotient is not
  computed: the score is 100 and the grade is Excellent.
\<close>

theorem no_rules_score_is_100:
  "totalRules (calculateSummaryStats r) = 0
     \<Longrightarrow> score (calculateSummaryStats r) = 100 \<and> grade (calculateSummaryStats r) = ''Excellent''"
  by (simp add: css_score css_grade grade_of_def)

text \<open>
  The empty result satisfies the hypothesis of C9's theorem.
\<close>

theorem no_rules_score_is_100_witness:
  "totalRules (calculateSummaryStats no_findings) = 0
   \<and> score (calculateSummaryStats no_findings) = 100
   \<and> grade (calculateSummaryStats no_findings) = ''Excellent''"
proof -
  have h: "totalRules (calculateSummaryStats no_findings) = 0"
    by (simp add: css_totalRules no_findings_def)
  from no_rules_score_is_100 [OF h] h show ?thesis by simp
qed

section \<open>Properties of report consolidation\<close>

lemma first_occurrences_snoc:
  "first_occurrences (xs @ [x]) =
     (if x \<in> set xs then first_occurrences xs else first_occurrences xs @ [x])"
  by (induction xs) auto

lemma set_first_occurrences [simp]: "set (first_occurrences xs) = set xs"
  by (induction xs) auto

lemma distinct_first_occurrences [simp]: "distinct (first_occurrences xs)"
  by (induction xs) auto

lemma insort_key_map:
  "insort_key g (h x) (map h xs) = map h (insort_key (\<lambda>a. g (h a)) x xs)"
  by (induction xs) simp_all

lemma sort_key_map: "sort_key g (map h xs) = map h (sort_key (\<lambda>a. g (h a)) xs)"
  by (induction xs) (simp_all add: insort_key_map)

lemma own_property_order_keyed:
  "own_property_order (map (\<lambda>k. (k, f k)) ks) = map (\<lambda>k. (k, f k)) (order_keys ks)"
  by (simp add: own_property_order_def order_keys_def filter_map sort_key_map comp_def)

lemma filter_filter_not [simp]: "filter P (filter (\<lambda>x. \<not> P x) xs) = []"
  by (induction xs) simp_all

lemma filter_not_filter [simp]: "filter (\<lambda>x. \<not> P x) (filter P xs) = []"
  by (induction xs) simp_all

lemma order_keys_idem: "order_keys (order_keys ks) = order_keys ks"
proof -
  let ?A = "sort_key digits_value (filter is_array_index ks)"
  have "sort_key digits_value ?A = ?A"
    by (rule sort_key_id_if_sorted) simp
  then show ?thesis
    by (simp add: order_keys_def filter_sort)
qed

lemma set_order_keys [simp]: "set (order_keys ks) = set ks"
  by (auto simp: order_keys_def)

lemma distinct_order_keys [simp]: "distinct ks \<Longrightarrow> distinct (order_keys ks)"
  by (auto simp: order_keys_def)

lemma map_of_keyed:
  "map_of (map (\<lambda>k. (k, f k)) ks) k = (if k \<in> set ks then Some (f k) else None)"
  by (induction ks) auto

lemma group_of_snoc:
  "group_of (done @ [row]) k =
     (if extractFixInstructions row = k
      then (group_of done k)\<lparr> rows := rows (group_of done k) @ [row],
              elements := elements (group_of done k) @ [extractElementInfo row],
              count_n := count_n (group_of done k) + 1 \<rparr>
      else group_of done k)"
  by (simp add: group_of_def)

lemma group_of_fresh:
  "extractFixInstructions row \<notin> extractFixInstructions ` set done \<Longrightarrow>
   group_of (done @ [row]) (extractFixInstructions row) =
     \<lparr> fixInstructions = extractFixInstructions row, rows = [row],
       elements = [extractElementInfo row], count_n = 1 \<rparr>"
proof -
  assume "extractFixInstructions row \<notin> extractFixInstructions ` set done"
  then have "filter (\<lambda>r. extractFixInstructions r = extractFixInstructions row) done = []"
    unfolding filter_empty_conv by (metis imageI)
  then show ?thesis by (simp add: group_of_def)
qed

lemma add_row_grouped:
  assumes "extractFixInstructions row \<notin> set object_prototype_names"
  shows "add_row (grouped done) row = Inr (grouped (done @ [row]))"
proof (cases "extractFixInstructions row \<in> extractFixInstructions ` set done")
  case True
  then have m: "map_of (grouped done) (extractFixInstructions row)
      = Some (group_of done (extractFixInstructions row))"
    by (simp add: grouped_def map_of_keyed)
  have "map (\<lambda>(k, g). if k = extractFixInstructions row
                         then (k, g\<lparr> rows := rows g @ [row],
                                    elements := elements g @ [extractElementInfo row],
                                    count_n := count_n g + 1 \<rparr>)
                         else (k, g)) (grouped done) = grouped (done @ [row])"
    using True by (auto simp: grouped_def first_occurrences_snoc group_of_snoc)
  with m show ?thesis by (simp add: add_row_def Let_def)
next
  case False
  then have m: "map_of (grouped done) (extractFixInstructions row) = None"
    by (simp add: grouped_def map_of_keyed)
  have "grouped done @ [(extractFixInstructions row,
          \<lparr> fixInstructions = extractFixInstructions row, rows = [row],
            elements = [extractElementInfo row], count_n = 1 \<rparr>)] = grouped (done @ [row])"
    using False group_of_fresh [OF False]
    by (auto simp: grouped_def first_occurrences_snoc group_of_snoc)
  with m assms show ?thesis by (simp add: add_row_def Let_def)
qed

lemma add_row_prototype_key:
  assumes "extractFixInstructions row \<in> set object_prototype_names"
    and "\<forall>r \<in> set done. extractFixInstructions r \<notin> set object_prototype_names"
  shows "isl (add_row (grouped done) row)"
proof -
  from assms have "extractFixInstructions row \<notin> extractFixInstructions ` set done" by auto
  then have "map_of (grouped done) (extractFixInstructions row) = None"
    by (simp add: grouped_def map_of_keyed)
  with assms(1) show ?thesis by (simp add: add_row_def Let_def)
qed

lemma group_rows_grouped:
  "\<forall>r \<in> set rs. extractFixInstructions r \<notin> set object_prototype_names
     \<Longrightarrow> group_rows (grouped done) rs = Inr (grouped (done @ rs))"
proof (induction rs arbitrary: "done")
  case Nil
  then show ?case by simp
next
  case (Cons r rs)
  then show ?case
    using Cons.IH [of "done @ [r]"] by (simp add: add_row_grouped)
qed

lemma group_rows_returns:
  "group_rows (grouped done) rs = Inr res
     \<Longrightarrow> \<forall>r \<in> set done. extractFixInstructions r \<notin> set object_prototype_names
     \<Longrightarrow> \<forall>r \<in> set rs. extractFixInstructions r \<notin> set object_prototype_names"
proof (induction rs arbitrary: "done")
  case Nil
  then show ?case by simp
next
  case (Cons r rs)
  show ?case
  proof (cases "extractFixInstructions r \<in> set object_prototype_names")
    case True
    from add_row_prototype_key [OF True Cons.prems(2)] Cons.prems(1) show ?thesis
      by (auto simp: isl_def)
  next
    case False
    with Cons.prems(1) have "group_rows (grouped (done @ [r])) rs = Inr res"
      by (simp add: add_row_grouped)
    from Cons.IH [OF this] False Cons.prems(2) show ?thesis by auto
  qed
qed

lemma grouped_Nil [simp]: "grouped [] = []"
  by (simp add: grouped_def)

lemma groupSimilarViolations_Inr:
  "groupSimilarViolations rs = Inr gs \<longleftrightarrow>
     (\<forall>r \<in> set rs. extractFixInstructions r \<notin> set object_prototype_names)
     \<and> gs = map (group_of rs) (order_keys (first_occurrences (map extractFixInstructions rs)))"
proof
  assume a: "groupSimilarViolations rs = Inr gs"
  then obtain res where res: "group_rows (grouped []) rs = Inr res"
    by (auto simp: groupSimilarViolations_def split: sum.splits)
  from group_rows_returns [OF res] have np:
    "\<forall>r \<in> set rs. extractFixInstructions r \<notin> set object_prototype_names" by simp
  from group_rows_grouped [OF np, of "[]"] a
  have "gs = map snd (own_property_order (grouped rs))"
    by (simp add: groupSimilarViolations_def)
  then have "gs = map (group_of rs) (order_keys (first_occurrences (map extractFixInstructions rs)))"
    by (simp add: grouped_def own_property_order_keyed comp_def)
  with np show "(\<forall>r \<in> set rs. extractFixInstructions r \<notin> set object_prototype_names)
     \<and> gs = map (group_of rs) (order_keys (first_occurrences (map extractFixInstructions rs)))"
    by simp
next
  assume a: "(\<forall>r \<in> set rs. extractFixInstructions r \<notin> set object_prototype_names)
     \<and> gs = map (group_of rs) (order_keys (first_occurrences (map extractFixInstructions rs)))"
  then have "group_rows (grouped []) rs = Inr (grouped rs)"
    using group_rows_grouped [of rs "[]"] by simp
  with a show "groupSimilarViolations rs = Inr gs"
    by (simp add: groupSimilarViolations_def grouped_def own_property_order_keyed comp_def)
qed

lemma first_occurrences_replicate:
  "first_occurrences (replicate (Suc n) k @ ys) = k # filter (\<lambda>y. y \<noteq> k) (first_occurrences ys)"
  by (induction n) simp_all

lemma map_key_filter:
  "map f (filter (\<lambda>r. f r = k) rs) = replicate (length (filter (\<lambda>r. f r = k) rs)) k"
  by (induction rs) simp_all

lemma filter_regrouped:
  "distinct ks \<Longrightarrow>
   filter (\<lambda>r. extractFixInstructions r = k) (regrouped_rows rs ks) =
     (if k \<in> set ks then filter (\<lambda>r. extractFixInstructions r = k) rs else [])"
proof (induction ks)
  case Nil
  then show ?case by (simp add: regrouped_rows_def)
next
  case (Cons a ks)
  have "filter (\<lambda>r. extractFixInstructions r = k) (filter (\<lambda>r. extractFixInstructions r = a) rs)
      = (if k = a then filter (\<lambda>r. extractFixInstructions r = a) rs else [])"
    by (auto simp: filter_empty_conv)
  with Cons show ?case
    by (auto simp: regrouped_rows_def)
qed

lemma first_occurrences_regrouped:
  "distinct ks \<Longrightarrow> set ks \<subseteq> extractFixInstructions ` set rs \<Longrightarrow>
   first_occurrences (map extractFixInstructions (regrouped_rows rs ks)) = ks"
proof (induction ks)
  case Nil
  then show ?case by (simp add: regrouped_rows_def)
next
  case (Cons a ks)
  let ?A = "filter (\<lambda>r. extractFixInstructions r = a) rs"
  from Cons.prems(2) have "?A \<noteq> []" by (auto simp: filter_empty_conv)
  then obtain n where n: "length ?A = Suc n" by (cases ?A) auto
  have "map extractFixInstructions (regrouped_rows rs (a # ks))
      = replicate (Suc n) a @ map extractFixInstructions (regrouped_rows rs ks)"
    using map_key_filter [of extractFixInstructions a rs] n by (simp add: regrouped_rows_def)
  then have "first_occurrences (map extractFixInstructions (regrouped_rows rs (a # ks)))
      = a # filter (\<lambda>y. y \<noteq> a) (first_occurrences (map extractFixInstructions (regrouped_rows rs ks)))"
    by (simp only: first_occurrences_replicate)
  also have "first_occurrences (map extractFixInstructions (regrouped_rows rs ks)) = ks"
    using Cons by simp
  also have "filter (\<lambda>y. y \<noteq> a) ks = ks" using Cons.prems(1) by (auto simp: filter_id_conv)
  finally show ?case .
qed

lemma set_regrouped: "set (regrouped_rows rs ks) \<subseteq> set rs"
  by (auto simp: regrouped_rows_def)

lemma group_of_regrouped:
  "distinct ks \<Longrightarrow> k \<in> set ks \<Longrightarrow> group_of (regrouped_rows rs ks) k = group_of rs k"
  by (simp add: group_of_def filter_regrouped)

lemma rows_of_groups:
  "concat (map rows (map (group_of rs) ks)) = regrouped_rows rs ks"
  by (simp add: regrouped_rows_def group_of_def comp_def)

text \<open>
  C8. When the rows of a table have been grouped, listing the member rows group by
  group and grouping that list again yields the same groups: the same keys in the same
  order, each with the same rows, the same elements and the same count.
\<close>

theorem regrouping_is_idempotent:
  assumes "groupSimilarViolations rs = Inr gs"
  shows "groupSimilarViolations (concat (map rows gs)) = Inr gs"
proof -
  define ks where "ks = order_keys (first_occurrences (map extractFixInstructions rs))"
  from assms have np: "\<forall>r \<in> set rs. extractFixInstructions r \<notin> set object_prototype_names"
    and gs: "gs = map (group_of rs) ks"
    by (simp_all add: groupSimilarViolations_Inr ks_def)
  have d: "distinct ks" and s: "set ks \<subseteq> extractFixInstructions ` set rs"
    by (simp_all add: ks_def)
  have flat: "concat (map rows gs) = regrouped_rows rs ks"
    by (simp only: gs rows_of_groups)
  have np': "\<forall>r \<in> set (regrouped_rows rs ks). extractFixInstructions r \<notin> set object_prototype_names"
    using np set_regrouped [of rs ks] by blast
  have o: "order_keys ks = ks" by (simp add: ks_def order_keys_idem)
  have m: "map (group_of (regrouped_rows rs ks)) ks = map (group_of rs) ks"
    using d by (simp add: group_of_regrouped)
  have "groupSimilarViolations (regrouped_rows rs ks)
      = Inr (map (group_of (regrouped_rows rs ks))
               (order_keys (first_occurrences
                  (map extractFixInstructions (regrouped_rows rs ks)))))"
    using np' by (simp only: groupSimilarViolations_Inr simp_thms)
  also have "\<dots> = Inr gs"
    by (simp only: first_occurrences_regrouped [OF d s] o m gs)
  finally show ?thesis by (simp only: flat)
qed

lemma sample_groups:
  "groupSimilarViolations sample_rows =
     Inr [group_of sample_rows ''Add alt text'', group_of sample_rows ''Add a label'']"
  by code_simp

text \<open>
  The eight example rows, listed group by group, are in another order than the input,
  and grouping them again gives the same two groups.
\<close>

theorem regrouping_is_idempotent_witness:
  "groupSimilarViolations sample_rows =
     Inr [group_of sample_rows ''Add alt text'', group_of sample_rows ''Add a label'']
   \<and> concat (map rows [group_of sample_rows ''Add alt text'', group_of sample_rows ''Add a label''])
       \<noteq> sample_rows
   \<and> groupSimilarViolations
       (concat (map rows [group_of sample_rows ''Add alt text'', group_of sample_rows ''Add a label'']))
     = Inr [group_of sample_rows ''Add alt text'', group_of sample_rows ''Add a label'']"
proof -
  have "concat (map rows [group_of sample_rows ''Add alt text'', group_of sample_rows ''Add a label''])
       \<noteq> sample_rows"
    by code_simp
  with sample_groups regrouping_is_idempotent [OF sample_groups] show ?thesis by simp
qed

subsection \<open>Rows of a violation table\<close>

text \<open>
  In a row with the three columns of a violation table the first cell holds the number of
  the row and the second the element. \<^verbatim>\<open>extractElementInfo\<close> reads the first cell,
  where it finds no code block, and \<^verbatim>\<open>extractFixInstructions\<close> reads the second.
\<close>

lemma split_at_free:
  "p \<notin> set xs \<Longrightarrow>
   split_at (p # ps) (xs @ ys) = map_option (\<lambda>(before, after). (xs @ before, after)) (split_at (p # ps) ys)"
proof (induction xs)
  case Nil
  show ?case by (simp add: option.map_ident case_prod_unfold)
next
  case (Cons x xs)
  then show ?case by (simp add: option.map_comp comp_def case_prod_unfold)
qed

lemma code_block_free: "CHR ''<'' \<notin> set xs \<Longrightarrow> code_block (xs @ ys) = code_block ys"
  by (induction xs) (auto simp: block_here_def)

lemma code_block_plain: "CHR ''<'' \<notin> set xs \<Longrightarrow> code_block xs = None"
  using code_block_free [of xs "[]"] by simp

lemma index_cell_info:
  assumes "CHR ''<'' \<notin> set n"
  shows "extractElementInfo (report_row n sel markup fixText) = Info [] []"
  using assms
  by (simp add: extractElementInfo_def report_row_def split_at_free code_block_plain)

lemma trim_element_cell [simp]: "trim (element_cell sel markup) = element_cell sel markup"
  by (simp add: trim_def element_cell_def js_space_def)

lemma second_cell_key:
  assumes "CHR ''<'' \<notin> set n" "CHR ''<'' \<notin> set sel" "CHR ''<'' \<notin> set markup"
  shows "extractFixInstructions (report_row n sel markup fixText) = element_cell sel markup"
proof -
  have a: "split_at ''</td>'' (element_cell sel markup @ ''</td>'' @ rest)
             = Some (element_cell sel markup, rest)" for rest
    using assms by (simp add: element_cell_def split_at_free)
  show ?thesis
    using assms a
    by (simp add: extractFixInstructions_def report_row_def split_at_free)
qed

lemma element_cell_no_member [simp]: "element_cell sel markup \<notin> set object_prototype_names"
  by (simp add: element_cell_def object_prototype_names_def)

lemma report_rows_grouping:
  assumes "\<forall>row \<in> set rs. \<exists>n sel markup fixText.
             row = report_row n sel markup fixText
             \<and> CHR ''<'' \<notin> set n \<and> CHR ''<'' \<notin> set sel \<and> CHR ''<'' \<notin> set markup"
  shows "\<exists>gs. groupSimilarViolations rs = Inr gs
           \<and> (\<forall>g \<in> set gs. elements g = replicate (count_n g) (Info [] [])
                  \<and> (\<exists>sel markup. fixInstructions g = element_cell sel markup))"
proof -
  have cells: "\<exists>n sel markup fixText.
             row = report_row n sel markup fixText
             \<and> CHR ''<'' \<notin> set n \<and> CHR ''<'' \<notin> set sel \<and> CHR ''<'' \<notin> set markup"
    if "row \<in> set rs" for row
    using assms that by (rule bspec)
  have info: "extractElementInfo row = Info [] []" if "row \<in> set rs" for row
  proof -
    from cells [OF that] obtain n sel markup fixText where
      "row = report_row n sel markup fixText" "CHR ''<'' \<notin> set n"
      by (elim exE conjE)
    then show ?thesis using index_cell_info [of n sel markup fixText] by simp
  qed
  have key: "\<exists>sel markup. extractFixInstructions row = element_cell sel markup"
    if "row \<in> set rs" for row
  proof -
    from cells [OF that] obtain n sel markup fixText where
      "row = report_row n sel markup fixText" "CHR ''<'' \<notin> set n"
      "CHR ''<'' \<notin> set sel" "CHR ''<'' \<notin> set markup"
      by (elim exE conjE)
    then have "extractFixInstructions row = element_cell sel markup"
      using second_cell_key [of n sel markup fixText] by simp
    then show ?thesis by (intro exI)
  qed
  have np: "\<forall>row \<in> set rs. extractFixInstructions row \<notin> set object_prototype_names"
  proof
    fix row assume "row \<in> set rs"
    from key [OF this] obtain sel markup where "extractFixInstructions row = element_cell sel markup"
      by (elim exE)
    then show "extractFixInstructions row \<notin> set object_prototype_names"
      by simp
  qed
  define ks where "ks = order_keys (first_occurrences (map extractFixInstructions rs))"
  have gs: "groupSimilarViolations rs = Inr (map (group_of rs) ks)"
    using np by (simp add: groupSimilarViolations_Inr ks_def)
  have "elements (group_of rs k) = replicate (count_n (group_of rs k)) (Info [] [])
        \<and> (\<exists>sel markup. fixInstructions (group_of rs k) = element_cell sel markup)"
    if "k \<in> set ks" for k
  proof
    have "\<forall>e \<in> set (elements (group_of rs k)). e = Info [] []"
      using info by (auto simp: group_of_def)
    then have "replicate (length (elements (group_of rs k))) (Info [] []) = elements (group_of rs k)"
      by (rule replicate_length_same)
    then show "elements (group_of rs k) = replicate (count_n (group_of rs k)) (Info [] [])"
      by (simp add: group_of_def)
    from that have "k \<in> extractFixInstructions ` set rs" by (simp add: ks_def)
    with key show "\<exists>sel markup. fixInstructions (group_of rs k) = element_cell sel markup"
      by (auto simp: group_of_def)
  qed
  with gs show ?thesis by simp
qed

lemma render_single_rows:
  "render_groups (map (\<lambda>row. \<lparr> fixInstructions = k row, rows = [row],
                             elements = e row, count_n = 1 \<rparr>) rs)
     = Inr (concat (map (\<lambda>row. ''<tr>'' @ row @ ''</tr>'') rs))"
  by (induction rs) (simp_all add: render_group_def)

lemma optimizeTable_rows:
  assumes "dataRows \<noteq> []" "groupSimilarViolations dataRows = Inr gs" "render_groups gs = Inr body"
  shows \<open>optimizeTable (h # dataRows)
     = Inr (Some (''<table class="table table-sm table-bordered">''
                   @ ''<tr>'' @ h @ ''</tr>'' @ body @ ''</table>''))\<close>
  using assms by (cases dataRows) (simp_all add: optimizeTable_def)

text \<open>
  C4, evaluated on rows of a violation table. The comment in
  \<^verbatim>\<open>groupSimilarViolations\<close> says that the key of a group, the fix instructions, is
  read from the third column; the regular expression of \<^verbatim>\<open>extractFixInstructions\<close>
  captures the second cell, which holds the element, and \<^verbatim>\<open>extractElementInfo\<close>
  reads the location and the source of the element from the first cell, which holds the
  number of the row.

  So four rows for four elements that share their fix instructions are not consolidated:
  each is a group of its own, keyed by its element cell, and the rebuilt table holds the
  four rows unchanged. Four rows that show the same element form one group, whatever
  their fix instructions: its consolidated row has three examples with an empty location
  and an empty element, the line for 1 more element, and the element cell in the column
  of the fix instructions.
\<close>

theorem report_rows_consolidation:
  \<open>groupSimilarViolations same_fix_rows
     = Inr (map (\<lambda>row. \<lparr> fixInstructions = extractFixInstructions row, rows = [row],
                             elements = [Info [] []], count_n = 1 \<rparr>) same_fix_rows)
   \<and> map extractFixInstructions same_fix_rows
       = [element_cell ''#a1'' ''&lt;img id=a1&gt;'', element_cell ''#a2'' ''&lt;img id=a2&gt;'',
          element_cell ''#a3'' ''&lt;img id=a3&gt;'', element_cell ''#a4'' ''&lt;img id=a4&gt;'']
   \<and> optimizeTable (table_header # same_fix_rows)
       = Inr (Some (''<table class="table table-sm table-bordered">''
                     @ concat (map (\<lambda>row. ''<tr>'' @ row @ ''</tr>'') (table_header # same_fix_rows))
                     @ ''</table>''))
   \<and> (case groupSimilarViolations same_element_rows of
         Inr [g] \<Rightarrow>
           count_n g = 4 \<and> rows g = same_element_rows
           \<and> elements g = [Info [] [], Info [] [], Info [] [], Info [] []]
           \<and> fixInstructions g = element_cell ''img'' ''&lt;img&gt;''
           \<and> render_group g = Inr (
            ''\<newline>      <tr>''
            @ ''\<newline>        <td><strong>4</strong></td>''
            @ ''\<newline>        <td>''
            @ ''\<newline>          <p><strong>Multiple similar violations (4 elements)</strong></p>''
            @ ''\<newline>          <div style="max-height: 200px; overflow-y: auto;">''
            @ ''\<newline>            ''
            @ ''\<newline>      <div style="margin-bottom: 8px; padding: 4px; background: #f8f9fa; border-left: 2px solid #007bff;">''
            @ ''\<newline>        <div><strong>Location:</strong> <code></code></div>''
            @ ''\<newline>        <div><strong>Element:</strong> <code></code></div>''
            @ ''\<newline>      </div>''
            @ ''\<newline>    ''
            @ ''\<newline>      <div style="margin-bottom: 8px; padding: 4px; background: #f8f9fa; border-left: 2px solid #007bff;">''
            @ ''\<newline>        <div><strong>Location:</strong> <code></code></div>''
            @ ''\<newline>        <div><strong>Element:</strong> <code></code></div>''
            @ ''\<newline>      </div>''
            @ ''\<newline>    ''
            @ ''\<newline>      <div style="margin-bottom: 8px; padding: 4px; background: #f8f9fa; border-left: 2px solid #007bff;">''
            @ ''\<newline>        <div><strong>Location:</strong> <code></code></div>''
            @ ''\<newline>        <div><strong>Element:</strong> <code></code></div>''
            @ ''\<newline>      </div>''
            @ ''\<newline>    ''
            @ ''\<newline>            <div style="margin-top: 8px; font-style: italic; color: #666;">''
            @ ''\<newline>        + 1 more similar element''
            @ ''\<newline>      </div>''
            @ ''\<newline>          </div>''
            @ ''\<newline>        </td>''
            @ ''\<newline>        <td><p><strong>Element location</strong></p><pre><code class="css text-wrap">img</code></pre><p><strong>Element source</strong></p><pre><code class="html text-wrap">&lt;img&gt;</code></pre></td>''
            @ ''\<newline>      </tr>''
            @ ''\<newline>    '')
       | _ \<Rightarrow> False)\<close>
proof -
  have a: "groupSimilarViolations same_fix_rows
     = Inr (map (\<lambda>row. \<lparr> fixInstructions = extractFixInstructions row, rows = [row],
                             elements = [Info [] []], count_n = 1 \<rparr>) same_fix_rows)"
    by code_simp
  have b: "map extractFixInstructions same_fix_rows
       = [element_cell ''#a1'' ''&lt;img id=a1&gt;'', element_cell ''#a2'' ''&lt;img id=a2&gt;'',
          element_cell ''#a3'' ''&lt;img id=a3&gt;'', element_cell ''#a4'' ''&lt;img id=a4&gt;'']"
    by (simp add: same_fix_rows_def second_cell_key)
  have "same_fix_rows \<noteq> []" by (simp add: same_fix_rows_def)
  from optimizeTable_rows [OF this a render_single_rows]
  have c: \<open>optimizeTable (table_header # same_fix_rows)
       = Inr (Some (''<table class="table table-sm table-bordered">''
                     @ concat (map (\<lambda>row. ''<tr>'' @ row @ ''</tr>'') (table_header # same_fix_rows))
                     @ ''</table>''))\<close>
    by simp
  have d: \<open>(case groupSimilarViolations same_element_rows of
         Inr [g] \<Rightarrow>
           count_n g = 4 \<and> rows g = same_element_rows
           \<and> elements g = [Info [] [], Info [] [], Info [] [], Info [] []]
           \<and> fixInstructions g = element_cell ''img'' ''&lt;img&gt;''
           \<and> render_group g = Inr (
            ''\<newline>      <tr>''
            @ ''\<newline>        <td><strong>4</strong></td>''
            @ ''\<newline>        <td>''
            @ ''\<newline>          <p><strong>Multiple similar violations (4 elements)</strong></p>''
            @ ''\<newline>          <div style="max-height: 200px; overflow-y: auto;">''
            @ ''\<newline>            ''
            @ ''\<newline>      <div style="margin-bottom: 8px; padding: 4px; background: #f8f9fa; border-left: 2px solid #007bff;">''
            @ ''\<newline>        <div><strong>Location:</strong> <code></code></div>''
            @ ''\<newline>        <div><strong>Element:</strong> <code></code></div>''
            @ ''\<newline>      </div>''
            @ ''\<newline>    ''
            @ ''\<newline>      <div style="margin-bottom: 8px; padding: 4px; background: #f8f9fa; border-left: 2px solid #007bff;">''
            @ ''\<newline>        <div><strong>Location:</strong> <code></code></div>''
            @ ''\<newline>        <div><strong>Element:</strong> <code></code></div>''
            @ ''\<newline>      </div>''
            @ ''\<newline>    ''
            @ ''\<newline>      <div style="margin-bottom: 8px; padding: 4px; background: #f8f9fa; border-left: 2px solid #007bff;">''
            @ ''\<newline>        <div><strong>Location:</strong> <code></code></div>''
            @ ''\<newline>        <div><strong>Element:</strong> <code></code></div>''
            @ ''\<newline>      </div>''
            @ ''\<newline>    ''
            @ ''\<newline>            <div style="margin-top: 8px; font-style: italic; color: #666;">''
            @ ''\<newline>        + 1 more similar element''
            @ ''\<newline>      </div>''
            @ ''\<newline>          </div>''
            @ ''\<newline>        </td>''
            @ ''\<newline>        <td><p><strong>Element location</strong></p><pre><code class="css text-wrap">img</code></pre><p><strong>Element source</strong></p><pre><code class="html text-wrap">&lt;img&gt;</code></pre></td>''
            @ ''\<newline>      </tr>''
            @ ''\<newline>    '')
       | _ \<Rightarrow> False)\<close>
    by code_simp
  from a b c d show ?thesis by (intro conjI)
qed

end
